theory Spec2Isabelle
  imports Complex_Main "HOL-Library.Multiset"
begin

section \<open>Common vocabulary\<close>

text \<open>
  The Python exceptions the modelled functions can raise.  \<open>AssertionError\<close> is what the
  failed \<^verbatim>\<open>assert D == D2, "Embedding dims must match"\<close> of \<^verbatim>\<open>compute_argmax_clusters\<close>
  raises (the specification's DimensionMismatch); \<open>ValueError\<close> is raised by
  \<^verbatim>\<open>range(0, N, 0)\<close> and by \<^verbatim>\<open>argmax\<close> over an empty axis; \<open>KeyError\<close> by a dictionary
  lookup of an absent key, \<open>IndexError\<close> by a list index out of range.
\<close>

datatype error = AssertionError | ValueError | KeyError | IndexError

text \<open>
  A two-dimensional numpy array: its second shape component and its rows.  The first shape
  component is the number of rows; the second is kept explicitly because an array with no
  rows still has a width.
\<close>

record 'a ndarray2 =
  ncols :: nat
  rows :: "'a list list"

definition nrows :: "'a ndarray2 \<Rightarrow> nat" where
  "nrows a = length (rows a)"

section \<open>assign\_clusters.py: nearest centroid by chunked argmax\<close>

text \<open>
  \<^verbatim>\<open>sims = real[start:end] @ unique.T\<close>.  The float32 matrix product of numpy is not part
  of the repository; it is the parameter \<open>matmul\<close> of the loop, a function from the rows of
  the chunk and the rows of \<open>unique\<close> to the \<open>[chunk, M]\<close> array of similarities.  Its entries
  are rounded sums, and the order in which a sum is accumulated may depend on the shape of
  the chunk; nothing is assumed about it.

  \<open>matmul_T ip\<close> is one such function: the product whose entry \<open>(i, j)\<close> is \<open>ip\<close> of row \<open>i\<close> of
  the chunk and row \<open>j\<close> of \<open>unique\<close>, whatever else the chunk holds.  With \<open>ip = dot\<close> it is the
  exact product.  It is not numpy's product.
\<close>

definition dot :: "real list \<Rightarrow> real list \<Rightarrow> real" where
  "dot x y = sum_list (map2 (*) x y)"

definition matmul_T :: "('a list \<Rightarrow> 'a list \<Rightarrow> 'b) \<Rightarrow> 'a list list \<Rightarrow> 'a list list \<Rightarrow> 'b list list" where
  "matmul_T ip chunk uniq = map (\<lambda>r. map (ip r) uniq) chunk"

text \<open>Python's \<^verbatim>\<open>xs[start:end]\<close> for \<open>0 \<le> start\<close>, \<open>0 \<le> end\<close>.\<close>

definition slice :: "nat \<Rightarrow> nat \<Rightarrow> 'a list \<Rightarrow> 'a list" where
  "slice s e xs = take (e - s) (drop s xs)"

text \<open>
  \<^verbatim>\<open>best[start:end] = vals\<close> on a numpy array, for a slice inside the array and \<open>vals\<close> of the
  slice's length.
\<close>

definition assign_slice :: "'a list \<Rightarrow> nat \<Rightarrow> nat \<Rightarrow> 'a list \<Rightarrow> 'a list" where
  "assign_slice best s e vals = take s best @ vals @ drop e best"

text \<open>
  \<^verbatim>\<open>argmax\<close> of one row: the index of the first occurrence of the largest entry.  The scan
  keeps the best index and value seen so far and moves on only for a strictly larger entry.
\<close>

fun argmax_scan :: "nat \<Rightarrow> 'b::linorder \<Rightarrow> nat \<Rightarrow> 'b list \<Rightarrow> nat" where
  "argmax_scan bi bv i [] = bi"
| "argmax_scan bi bv i (x # xs) =
     (if bv < x then argmax_scan i x (Suc i) xs else argmax_scan bi bv (Suc i) xs)"

definition argmax_row :: "'b::linorder list \<Rightarrow> nat" where
  "argmax_row r = (case r of [] \<Rightarrow> 0 | x # xs \<Rightarrow> argmax_scan 0 x 1 xs)"

text \<open>
  \<^verbatim>\<open>sims.argmax(axis=1)\<close> on a \<open>[chunk, M]\<close> array: numpy raises ValueError when the axis is
  empty (\<open>M = 0\<close>).
\<close>

definition argmax_axis1 :: "nat \<Rightarrow> 'b::linorder list list \<Rightarrow> error + nat list" where
  "argmax_axis1 M sims = (if M = 0 then Inl ValueError else Inr (map argmax_row sims))"

text \<open>
  The uninitialised arrays of \<^verbatim>\<open>np.empty(N)\<close> hold \<open>None\<close> in every cell; a cell the loop
  wrote holds \<open>Some\<close> of the value.
\<close>

function chunk_loop ::
  "('a list list \<Rightarrow> 'a list list \<Rightarrow> 'b::linorder list list) \<Rightarrow> 'a list list \<Rightarrow> 'a list list \<Rightarrow>
   nat \<Rightarrow> nat \<Rightarrow> nat option list \<Rightarrow> 'b option list \<Rightarrow>
   error + (nat option list \<times> 'b option list)" where
  "chunk_loop matmul real_rows uniq chunk_size start best_idx best_sim =
     (if start < length real_rows \<and> 0 < chunk_size then
        (let end = min (start + chunk_size) (length real_rows);
             sims = matmul (slice start end real_rows) uniq
         in case argmax_axis1 (length uniq) sims of
              Inl e \<Rightarrow> Inl e
            | Inr idx \<Rightarrow>
                (let val = map2 (\<lambda>r i. r ! i) sims idx
                 in chunk_loop matmul real_rows uniq chunk_size (start + chunk_size)
                      (assign_slice best_idx start end (map Some idx))
                      (assign_slice best_sim start end (map Some val))))
      else Inr (best_idx, best_sim))"
  by pat_completeness auto
termination
  by (relation "measure (\<lambda>(matmul, real_rows, uniq, chunk_size, start, bi, bs). length real_rows - start)")
     auto

declare chunk_loop.simps [simp del]

text \<open>
  \<^verbatim>\<open>compute_argmax_clusters(real, unique, chunk_size)\<close>.  The assertion on the widths comes
  first.  \<^verbatim>\<open>range(0, N, chunk_size)\<close> raises ValueError for a zero step and is empty for a
  negative one; then the loop body never runs and the arrays are returned as allocated.
\<close>

definition compute_argmax_clusters ::
  "('a list list \<Rightarrow> 'a list list \<Rightarrow> 'b::linorder list list) \<Rightarrow> 'a ndarray2 \<Rightarrow> 'a ndarray2 \<Rightarrow> int \<Rightarrow>
   error + (nat option list \<times> 'b option list)" where
  "compute_argmax_clusters matmul real_arr unique chunk_size =
     (let N = nrows real_arr; D = ncols real_arr; M = nrows unique; D2 = ncols unique
      in if D \<noteq> D2 then Inl AssertionError
         else if chunk_size = 0 then Inl ValueError
         else if chunk_size < 0 then Inr (replicate N None, replicate N None)
         else chunk_loop matmul (rows real_arr) (rows unique) (nat chunk_size) 0
                (replicate N None) (replicate N None))"

text \<open>
  The unchunked reference for a product with entry function \<open>ip\<close>: for every row of \<open>real\<close>,
  the index of its best match among the rows of \<open>unique\<close>, and the similarity at that index.
\<close>

definition nearest_unchunked ::
  "('a list \<Rightarrow> 'a list \<Rightarrow> 'b::linorder) \<Rightarrow> 'a list list \<Rightarrow> 'a list list \<Rightarrow> nat list \<times> 'b list" where
  "nearest_unchunked ip real_rows uniq =
     (map (\<lambda>r. argmax_row (map (ip r) uniq)) real_rows,
      map (\<lambda>r. map (ip r) uniq ! argmax_row (map (ip r) uniq)) real_rows)"

section \<open>dedupe\_by\_threshold.py: normalisation and greedy duplicate grouping\<close>

text \<open>
  \<^verbatim>\<open>l2_normalize\<close>.  numpy computes it in float32: \<^verbatim>\<open>np.linalg.norm(x, axis=1, keepdims=True)\<close>,
  then \<^verbatim>\<open>np.maximum(norms, 1e-6)\<close> with the literal converted to float32, then
  \<^verbatim>\<open>(x / norms).astype(np.float32, copy=False)\<close>.  These operations are not part of the
  repository and are the fields of a record: the norm of one row as numpy computes it, the
  conversion of a literal, and the quotient of two numbers as numpy rounds it and converts
  it to float32.  A float32 number is modelled by the real number it denotes;
  \<^verbatim>\<open>np.maximum\<close> of two such numbers is their maximum.  The values inf and NaN have no
  counterpart here: where the code overflows, no accuracy bound on the fields holds.
\<close>

record float_ops =
  norm_op :: "real list \<Rightarrow> real"
  literal_op :: "real \<Rightarrow> real"
  divide_op :: "real \<Rightarrow> real \<Rightarrow> real"

definition l2_normalize_row :: "float_ops \<Rightarrow> real list \<Rightarrow> real list" where
  "l2_normalize_row ops x =
     (let norms = norm_op ops x;
          norms = max norms (literal_op ops (1 / 1000000))
      in map (\<lambda>v. divide_op ops v norms) x)"


text \<open>
  The L2 norm of a vector of reals, the quantity that the unit-norm invariant speaks of.
  It is the mathematical norm, not the number numpy computes for it.
\<close>

definition l2_norm :: "real list \<Rightarrow> real" where
  "l2_norm x = sqrt (sum_list (map (\<lambda>v. v * v) x))"

text \<open>
  Two choices of the operations.  \<open>exact_ops\<close> computes without rounding.  \<open>grid_ops\<close> rounds
  the norm to a multiple of \<open>2^-21\<close>, the literal to a multiple of \<open>2^-43\<close> and a quotient to
  a multiple of \<open>2^-24\<close>; these are the spacings of float32 for a norm between 4 and 8, a
  literal between \<open>2^-20\<close> and \<open>2^-19\<close> and a quotient between 1/2 and 1, so on such
  numbers (away from a tie) \<open>grid_ops\<close> rounds as float32 does.
\<close>

definition exact_ops :: float_ops where
  "exact_ops = \<lparr>norm_op = l2_norm, literal_op = (\<lambda>r. r), divide_op = (\<lambda>v d. v / d)\<rparr>"



text \<open>
  The result \<^verbatim>\<open>(lims, D, I)\<close> of the index library's \<^verbatim>\<open>range_search(real, threshold)\<close> is read
  by the loop only as \<^verbatim>\<open>zip(I[lims[i]:lims[i+1]], D[lims[i]:lims[i+1]])\<close>: for query \<open>i\<close>, the
  list of its (neighbour index, similarity) pairs.  The library is not part of the
  repository; that list is the parameter \<open>neigh\<close> of the loop.
\<close>

type_synonym range_result = "nat \<Rightarrow> (nat \<times> real) list"

text \<open>
  The inner loop \<^verbatim>\<open>for j, s in zip(neigh_idx, neigh_sim)\<close>: it skips \<open>i\<close> itself, and
  appends a neighbour at or above the threshold that is not assigned yet.  \<open>assigned\<close> is
  not written inside this loop.
\<close>

fun collect_neighbours ::
  "real \<Rightarrow> bool list \<Rightarrow> nat \<Rightarrow> (nat \<times> real) list \<Rightarrow> nat list \<Rightarrow> real list \<Rightarrow> nat list \<times> real list" where
  "collect_neighbours threshold assigned i [] grp sims = (grp, sims)"
| "collect_neighbours threshold assigned i ((j, s) # rest) grp sims =
     (if j = i then collect_neighbours threshold assigned i rest grp sims
      else if threshold \<le> s \<and> \<not> assigned ! j
        then collect_neighbours threshold assigned i rest (grp @ [j]) (sims @ [s])
        else collect_neighbours threshold assigned i rest grp sims)"

text \<open>\<^verbatim>\<open>for j in group: assigned[j] = True\<close>\<close>

definition mark_assigned :: "nat list \<Rightarrow> bool list \<Rightarrow> bool list" where
  "mark_assigned grp assigned = fold (\<lambda>j a. a[j := True]) grp assigned"

text \<open>The outer loop \<^verbatim>\<open>for i in range(n)\<close>, over the indices still to visit.\<close>

fun dedupe_loop ::
  "real \<Rightarrow> range_result \<Rightarrow> nat list \<Rightarrow> bool list \<Rightarrow> nat list list \<Rightarrow> real list list \<Rightarrow>
   nat list list \<times> real list list" where
  "dedupe_loop threshold neigh [] assigned groups group_sims = (groups, group_sims)"
| "dedupe_loop threshold neigh (i # todo) assigned groups group_sims =
     (if assigned ! i then dedupe_loop threshold neigh todo assigned groups group_sims
      else
        (let (grp, sims) = collect_neighbours threshold assigned i (neigh i) [i] [1]
         in dedupe_loop threshold neigh todo (mark_assigned grp assigned)
              (groups @ [grp]) (group_sims @ [sims])))"

text \<open>
  \<^verbatim>\<open>dedupe_range_search(real, threshold)\<close>, for \<open>n\<close> rows and the range-search result
  \<open>neigh\<close> of those rows at that threshold.
\<close>

definition dedupe_range_search ::
  "nat \<Rightarrow> range_result \<Rightarrow> real \<Rightarrow> nat list list \<times> real list list" where
  "dedupe_range_search n neigh threshold =
     dedupe_loop threshold neigh [0..<n] (replicate n False) [] []"

text \<open>
  Modelled from the spec: the range search of the external index library (an inner-product
  index over all rows, queried with every row).  For each query row it returns the pairs
  (neighbour index, similarity) with similarity at least the threshold, the row itself
  included, in ascending index order; similarity is the exact inner product.
\<close>

definition range_search :: "real list list \<Rightarrow> real \<Rightarrow> range_result" where
  "range_search vectors threshold i =
     filter (\<lambda>(j, s). threshold \<le> s)
       (map (\<lambda>j. (j, dot (vectors ! i) (vectors ! j))) [0..<length vectors])"

definition duplicate_groups :: "real list list \<Rightarrow> real \<Rightarrow> nat list list \<times> real list list" where
  "duplicate_groups vectors threshold =
     dedupe_range_search (length vectors) (range_search vectors threshold) threshold"

text \<open>
  The same search with the strict cut: a row is reported when its similarity is greater
  than the threshold.  The specification words the cut as ``at least''; the inner-product
  index that the code builds reports a row only above the radius.  The two searches differ
  exactly where a similarity equals the threshold; rounding of the inner products is in
  neither of them.  The properties of the grouping below are stated for an arbitrary
  range-search result and depend on neither.
\<close>

definition range_search_strict :: "real list list \<Rightarrow> real \<Rightarrow> range_result" where
  "range_search_strict vectors threshold i =
     filter (\<lambda>(j, s). threshold < s)
       (map (\<lambda>j. (j, dot (vectors ! i) (vectors ! j))) [0..<length vectors])"

definition duplicate_groups_strict ::
  "real list list \<Rightarrow> real \<Rightarrow> nat list list \<times> real list list" where
  "duplicate_groups_strict vectors threshold =
     dedupe_range_search (length vectors) (range_search_strict vectors threshold) threshold"

text \<open>\<^verbatim>\<open>write_outputs\<close>: the rows of the membership table, the keep list and the remove list.\<close>

record dedupe_record =
  group_id :: nat
  representative :: string
  member_path :: string
  similarity_to_rep :: real
  is_representative :: nat

definition py_index :: "'a list \<Rightarrow> nat \<Rightarrow> error + 'a" where
  "py_index xs i = (if i < length xs then Inr (xs ! i) else Inl IndexError)"

text \<open>
  The loop \<^verbatim>\<open>for k, (j, s) in enumerate(zip(idxs, sims))\<close> of one group; it returns the
  records and the removed paths of the group.
\<close>

fun group_records ::
  "string list \<Rightarrow> nat \<Rightarrow> string \<Rightarrow> nat \<Rightarrow> (nat \<times> real) list \<Rightarrow> error + (dedupe_record list \<times> string list)" where
  "group_records paths gid rep_path k [] = Inr ([], [])"
| "group_records paths gid rep_path k ((j, s) # rest) =
     (case py_index paths j of
        Inl e \<Rightarrow> Inl e
      | Inr p \<Rightarrow>
          (case group_records paths gid rep_path (Suc k) rest of
             Inl e \<Rightarrow> Inl e
           | Inr (records, remove) \<Rightarrow>
               Inr (\<lparr>group_id = gid, representative = rep_path, member_path = p,
                      similarity_to_rep = s, is_representative = (if k = 0 then 1 else 0)\<rparr> # records,
                    (if 0 < k then p # remove else remove))))"

text \<open>
  The loop \<^verbatim>\<open>for gid, (idxs, sims) in enumerate(zip(groups, group_sims), start=1)\<close>; the
  result is, group by group, the group's records, its kept path and its removed paths.
\<close>

fun write_groups ::
  "string list \<Rightarrow> nat \<Rightarrow> (nat list \<times> real list) list \<Rightarrow>
   error + (dedupe_record list \<times> string \<times> string list) list" where
  "write_groups paths gid [] = Inr []"
| "write_groups paths gid ((idxs, sims) # rest) =
     (case py_index idxs 0 of
        Inl e \<Rightarrow> Inl e
      | Inr rep \<Rightarrow>
          (case py_index paths rep of
             Inl e \<Rightarrow> Inl e
           | Inr rep_path \<Rightarrow>
               (case group_records paths gid rep_path 0 (zip idxs sims) of
                  Inl e \<Rightarrow> Inl e
                | Inr (records, remove) \<Rightarrow>
                    (case write_groups paths (Suc gid) rest of
                       Inl e \<Rightarrow> Inl e
                     | Inr out \<Rightarrow> Inr ((records, rep_path, remove) # out)))))"

record dedupe_outputs =
  records :: "dedupe_record list"
  keep :: "string list"
  remove :: "string list"

definition write_outputs ::
  "string list \<Rightarrow> nat list list \<Rightarrow> real list list \<Rightarrow> error + dedupe_outputs" where
  "write_outputs paths groups group_sims =
     (case write_groups paths 1 (zip groups group_sims) of
        Inl e \<Rightarrow> Inl e
      | Inr out \<Rightarrow>
          Inr \<lparr>records = concat (map fst out),
               keep = map (\<lambda>g. fst (snd g)) out,
               remove = concat (map (\<lambda>g. snd (snd g)) out)\<rparr>)"

section \<open>split.py: capping, three-step allocation, split files\<close>

text \<open>
  A dictionary \<^verbatim>\<open>Dict[str, List[str]]\<close> from cluster key to image paths, as the list of its
  items in insertion order (the order in which Python iterates over it).  The keys of a
  dictionary are distinct.
\<close>

type_synonym inventory = "(string \<times> string list) list"

text \<open>
  \<^verbatim>\<open>build_cluster_to_images\<close>: for every row (image path, cluster key) of the assignment
  table, \<^verbatim>\<open>mapping.setdefault(key, []).append(image_path)\<close>.
\<close>

fun setdefault_append :: "inventory \<Rightarrow> string \<Rightarrow> string \<Rightarrow> inventory" where
  "setdefault_append [] key img = [(key, [img])]"
| "setdefault_append ((k, images) # rest) key img =
     (if k = key then (k, images @ [img]) # rest
      else (k, images) # setdefault_append rest key img)"

definition build_cluster_to_images :: "(string \<times> string) list \<Rightarrow> inventory" where
  "build_cluster_to_images assign_rows =
     fold (\<lambda>(image_path, key) mapping. setdefault_append mapping key image_path) assign_rows []"

text \<open>\<^verbatim>\<open>os.path.basename\<close>: what follows the last slash.\<close>

definition basename :: "string \<Rightarrow> string" where
  "basename p = rev (takeWhile (\<lambda>c. c \<noteq> CHR ''/'') (rev p))"

definition startswith :: "string \<Rightarrow> string \<Rightarrow> bool" where
  "startswith s pre = (take (length pre) s = pre)"

text \<open>
  The module \<^verbatim>\<open>random\<close> is not part of the repository.  Its generator state is a value of
  type \<open>'g\<close>; \<^verbatim>\<open>random.seed(seed)\<close> replaces the state by one that depends on the seed only,
  and \<^verbatim>\<open>random.shuffle(xs)\<close> reorders \<open>xs\<close> and advances the state.
\<close>

record 'g random_module =
  seed_state :: "int \<Rightarrow> 'g"
  shuffle :: "'g \<Rightarrow> string list \<Rightarrow> string list \<times> 'g"

text \<open>Python's \<^verbatim>\<open>xs[:c]\<close>; a negative \<open>c\<close> counts from the end.\<close>

definition py_prefix :: "'a list \<Rightarrow> int \<Rightarrow> 'a list" where
  "py_prefix xs c = (if c < 0 then take (nat (int (length xs) + c)) xs else take (nat c) xs)"

definition cap_cluster ::
  "'g random_module \<Rightarrow> 'g \<Rightarrow> string list \<Rightarrow> int \<Rightarrow> int \<Rightarrow> string list \<times> 'g" where
  "cap_cluster rnd g images cap_size seed =
     (let g1 = seed_state rnd seed;
          (shuffled, g2) = shuffle rnd g1 images
      in (py_prefix shuffled cap_size, g2))"

fun apply_caps ::
  "'g random_module \<Rightarrow> 'g \<Rightarrow> inventory \<Rightarrow> (string \<rightharpoonup> int) \<Rightarrow> int \<Rightarrow> inventory \<times> 'g" where
  "apply_caps rnd g [] caps seed = ([], g)"
| "apply_caps rnd g ((cluster_key, images) # rest) caps seed =
     (case caps (basename cluster_key) of
        Some cap_size \<Rightarrow>
          (let (capped_images, g1) = cap_cluster rnd g images cap_size seed;
               (capped, g2) = apply_caps rnd g1 rest caps seed
           in ((cluster_key, capped_images) # capped, g2))
      | None \<Rightarrow>
          (let (capped, g2) = apply_caps rnd g rest caps seed
           in ((cluster_key, images) # capped, g2)))"

datatype split = Train | Val | Test

definition splits_list :: "split list" where
  "splits_list = [Train, Val, Test]"

definition capped_assignment :: "string \<rightharpoonup> split" where
  "capped_assignment =
     [''night_bg_003.jpg'' \<mapsto> Train, ''night_bg_002.jpg'' \<mapsto> Val, ''night_bg_005.jpg'' \<mapsto> Test]"

definition target_ratios :: "split \<Rightarrow> real" where
  "target_ratios s = (case s of Train \<Rightarrow> 70 / 100 | Val \<Rightarrow> 20 / 100 | Test \<Rightarrow> 10 / 100)"

text \<open>
  The local variables of \<^verbatim>\<open>allocate_exact_splits\<close>.  The four dictionaries keyed by split
  name are functions on \<open>split\<close>; the two pools hold (cluster key, basename, size).
\<close>

record alloc_state =
  allocation :: "split \<Rightarrow> string list"
  counts :: "split \<Rightarrow> int"
  day_counts :: "split \<Rightarrow> int"
  night_counts :: "split \<Rightarrow> int"
  day_clusters :: "(string \<times> string \<times> int) list"
  night_clusters :: "(string \<times> string \<times> int) list"

definition initial_state :: alloc_state where
  "initial_state =
     \<lparr>allocation = (\<lambda>s. []), counts = (\<lambda>s. 0), day_counts = (\<lambda>s. 0), night_counts = (\<lambda>s. 0),
      day_clusters = [], night_clusters = []\<rparr>"

text \<open>
  Step 1, the body of \<^verbatim>\<open>for cluster_key in cluster_to_images.keys()\<close>;
  \<^verbatim>\<open>cluster_to_images[cluster_key]\<close> is the value of the item.
\<close>

definition step1_cluster :: "string \<times> string list \<Rightarrow> alloc_state \<Rightarrow> alloc_state" where
  "step1_cluster item st =
     (let cluster_key = fst item;
          bname = basename cluster_key;
          size = int (length (snd item));
          is_night = startswith bname ''night_bg_''
      in case capped_assignment bname of
           Some split \<Rightarrow>
             st\<lparr>allocation := (allocation st)(split := allocation st split @ [cluster_key]),
                counts := (counts st)(split := counts st split + size),
                night_counts := (night_counts st)(split := night_counts st split + size)\<rparr>
         | None \<Rightarrow>
             if is_night
             then st\<lparr>night_clusters := night_clusters st @ [(cluster_key, bname, size)]\<rparr>
             else st\<lparr>day_clusters := day_clusters st @ [(cluster_key, bname, size)]\<rparr>)"

definition step1 :: "inventory \<Rightarrow> alloc_state" where
  "step1 cluster_to_images = fold step1_cluster cluster_to_images initial_state"

text \<open>
  \<^verbatim>\<open>clusters.sort(key=lambda x: x[2], reverse=True)\<close>: descending by size, and stable
  (clusters of equal size keep their order).
\<close>

definition sort_largest_first :: "(string \<times> string \<times> int) list \<Rightarrow> (string \<times> string \<times> int) list" where
  "sort_largest_first xs = rev (sort_key (\<lambda>x. snd (snd x)) (rev xs))"

text \<open>
  \<^verbatim>\<open>max(d, key=d.get)\<close> for a dictionary \<open>d\<close> with the keys train, val, test in this order:
  the first key whose value is largest.
\<close>

fun max_key_from :: "('k \<Rightarrow> 'v::linorder) \<Rightarrow> 'k \<Rightarrow> 'k list \<Rightarrow> 'k" where
  "max_key_from f best [] = best"
| "max_key_from f best (k # ks) =
     (if f best < f k then max_key_from f k ks else max_key_from f best ks)"

definition max_split :: "(split \<Rightarrow> 'v::linorder) \<Rightarrow> split" where
  "max_split f = max_key_from f Train [Val, Test]"

text \<open>
  Step 2 computes, for every split, \<^verbatim>\<open>target_ratios[split] - current_ratio\<close> with
  \<^verbatim>\<open>current_ratio = counts[split] / current_total if current_total > 0 else 0\<close>, in
  Python's double-precision arithmetic, which is not modelled here.  The function that
  yields this number from the split, \<^verbatim>\<open>counts[split]\<close> and \<^verbatim>\<open>current_total\<close> is the
  parameter \<open>deficit\<close> of the allocation, and the properties of the allocation are proved
  for every such function.  \<open>exact_deficit\<close> is the expression over the reals.  It is not the
  code's arithmetic: where two deficits are equal or nearly equal over the reals, the
  doubles may order them otherwise (\<^verbatim>\<open>0.7 - 3/5\<close> is below \<^verbatim>\<open>0.1\<close> in doubles and equal to
  it over the reals).  It is used only on example inventories in which the deficits
  compared are far apart.
\<close>

definition exact_deficit :: "split \<Rightarrow> int \<Rightarrow> int \<Rightarrow> real" where
  "exact_deficit split split_count current_total =
     target_ratios split -
       (if 0 < current_total then real_of_int split_count / real_of_int current_total else 0)"

text \<open>Step 2, the body of \<^verbatim>\<open>for cluster_key, basename, size in night_clusters\<close>.\<close>

definition step2_cluster ::
  "(split \<Rightarrow> int \<Rightarrow> int \<Rightarrow> 'd::linorder) \<Rightarrow> string \<times> string \<times> int \<Rightarrow> alloc_state \<Rightarrow> alloc_state" where
  "step2_cluster deficit c st =
     (let cluster_key = fst c;
          size = snd (snd c);
          current_total = sum_list (map (counts st) splits_list);
          deficits = (\<lambda>split. deficit split (counts st split) current_total);
          best_split = max_split deficits
      in st\<lparr>allocation := (allocation st)(best_split := allocation st best_split @ [cluster_key]),
            counts := (counts st)(best_split := counts st best_split + size),
            night_counts := (night_counts st)(best_split := night_counts st best_split + size)\<rparr>)"

text \<open>Step 3, the body of \<^verbatim>\<open>for cluster_key, basename, size in day_clusters\<close>.\<close>

definition step3_cluster :: "string \<times> string \<times> int \<Rightarrow> alloc_state \<Rightarrow> alloc_state" where
  "step3_cluster c st =
     (let cluster_key = fst c;
          size = snd (snd c);
          imbalances = (\<lambda>split. night_counts st split - day_counts st split);
          best_split = max_split imbalances
      in st\<lparr>allocation := (allocation st)(best_split := allocation st best_split @ [cluster_key]),
            counts := (counts st)(best_split := counts st best_split + size),
            day_counts := (day_counts st)(best_split := day_counts st best_split + size)\<rparr>)"

definition allocate_state ::
  "(split \<Rightarrow> int \<Rightarrow> int \<Rightarrow> 'd::linorder) \<Rightarrow> inventory \<Rightarrow> alloc_state" where
  "allocate_state deficit cluster_to_images =
     (let st1 = step1 cluster_to_images;
          nights = sort_largest_first (night_clusters st1);
          days = sort_largest_first (day_clusters st1);
          st2 = fold (step2_cluster deficit) nights st1
      in fold step3_cluster days st2)"

record split_stat =
  day :: int
  night :: int
  total :: int

definition allocate_exact_splits ::
  "(split \<Rightarrow> int \<Rightarrow> int \<Rightarrow> 'd::linorder) \<Rightarrow> inventory \<Rightarrow>
   (split \<Rightarrow> string list) \<times> (split \<Rightarrow> split_stat)" where
  "allocate_exact_splits deficit cluster_to_images =
     (let st = allocate_state deficit cluster_to_images
      in (allocation st,
          (\<lambda>split. \<lparr>day = day_counts st split, night = night_counts st split,
                     total = counts st split\<rparr>)))"

text \<open>
  \<^verbatim>\<open>write_splits\<close>.  \<^verbatim>\<open>cluster_to_images[cluster_key]\<close> raises KeyError for an absent key.
  The files are named without the output directory.
\<close>

definition lookup :: "inventory \<Rightarrow> string \<Rightarrow> error + string list" where
  "lookup cluster_to_images k =
     (case map_of cluster_to_images k of None \<Rightarrow> Inl KeyError | Some images \<Rightarrow> Inr images)"

fun extend_images :: "inventory \<Rightarrow> string list \<Rightarrow> string list \<Rightarrow> error + string list" where
  "extend_images cluster_to_images [] images = Inr images"
| "extend_images cluster_to_images (cluster_key # ks) images =
     (case lookup cluster_to_images cluster_key of
        Inl e \<Rightarrow> Inl e
      | Inr xs \<Rightarrow> extend_images cluster_to_images ks (images @ xs))"

definition output_name :: "split \<Rightarrow> string" where
  "output_name s =
     (case s of Train \<Rightarrow> ''train_capped.txt'' | Val \<Rightarrow> ''val_capped.txt''
      | Test \<Rightarrow> ''test_capped.txt'')"

text \<open>\<^verbatim>\<open>'\n'.join(images) + ('\n' if images else '')\<close>\<close>

fun join_lines :: "string list \<Rightarrow> string" where
  "join_lines [] = []"
| "join_lines [x] = x"
| "join_lines (x # y # ys) = x @ [CHR 0x0A] @ join_lines (y # ys)"

definition file_text :: "string list \<Rightarrow> string" where
  "file_text images = join_lines images @ (if images \<noteq> [] then [CHR 0x0A] else [])"

text \<open>
  The loop \<^verbatim>\<open>for split_name in ['train', 'val', 'test']\<close>: it returns, for every split
  written, the file name, the shuffled image list and the text of the file.
\<close>

fun write_split_files ::
  "'g random_module \<Rightarrow> 'g \<Rightarrow> (split \<Rightarrow> string list) \<Rightarrow> inventory \<Rightarrow> split list \<Rightarrow>
   error + (split \<times> string \<times> string list \<times> string) list" where
  "write_split_files rnd g alloc cluster_to_images [] = Inr []"
| "write_split_files rnd g alloc cluster_to_images (split_name # todo) =
     (case extend_images cluster_to_images (alloc split_name) [] of
        Inl e \<Rightarrow> Inl e
      | Inr images \<Rightarrow>
          (let (shuffled, g1) = shuffle rnd g images
           in case write_split_files rnd g1 alloc cluster_to_images todo of
                Inl e \<Rightarrow> Inl e
              | Inr files \<Rightarrow>
                  Inr ((split_name, output_name split_name, shuffled, file_text shuffled) # files)))"

definition write_splits ::
  "'g random_module \<Rightarrow> (split \<Rightarrow> string list) \<Rightarrow> inventory \<Rightarrow> int \<Rightarrow>
   error + (split \<times> string \<times> string list \<times> string) list" where
  "write_splits rnd alloc cluster_to_images seed =
     write_split_files rnd (seed_state rnd seed) alloc cluster_to_images splits_list"

text \<open>
  The part of \<^verbatim>\<open>main\<close> between loading the tables and printing the statistics: capping,
  allocation, writing.  \<open>g\<close> is the state of the generator when the run starts.  In \<^verbatim>\<open>main\<close>
  the seeding of \<^verbatim>\<open>write_splits\<close> discards the state that \<^verbatim>\<open>apply_caps\<close> leaves.
\<close>

definition caps_table :: "string \<rightharpoonup> int" where
  "caps_table =
     [''night_bg_003.jpg'' \<mapsto> 500, ''night_bg_002.jpg'' \<mapsto> 400, ''night_bg_005.jpg'' \<mapsto> 400]"

definition run_splits ::
  "'g random_module \<Rightarrow> (split \<Rightarrow> int \<Rightarrow> int \<Rightarrow> 'd::linorder) \<Rightarrow> 'g \<Rightarrow> inventory \<Rightarrow>
   (string \<rightharpoonup> int) \<Rightarrow> int \<Rightarrow> error + (split \<times> string \<times> string list \<times> string) list" where
  "run_splits rnd deficit g cluster_to_images caps seed =
     (let capped = fst (apply_caps rnd g cluster_to_images caps seed);
          alloc = fst (allocate_exact_splits deficit capped)
      in write_splits rnd alloc capped seed)"

text \<open>The image list written for a split, in a result of \<open>write_splits\<close>.\<close>

definition images_of :: "(split \<times> string \<times> string list \<times> string) list \<Rightarrow> split \<Rightarrow> string list" where
  "images_of files s = concat (map (\<lambda>f. fst (snd (snd f))) (filter (\<lambda>f. fst f = s) files))"

section \<open>Auxiliary notions for the duplicate grouping\<close>

text \<open>
  What the loop relies on in the range-search result for \<open>n\<close> rows.  The labels the index
  returns are row numbers of the indexed matrix (\<open>in_range\<close>; outside that range
  \<^verbatim>\<open>assigned[j]\<close> would raise or wrap), and a row is reported at most once per query
  (\<open>no_repeats\<close>).
\<close>

definition in_range :: "nat \<Rightarrow> range_result \<Rightarrow> bool" where
  "in_range n neigh = (\<forall>i<n. \<forall>j \<in> fst ` set (neigh i). j < n)"

definition no_repeats :: "nat \<Rightarrow> range_result \<Rightarrow> bool" where
  "no_repeats n neigh = (\<forall>i<n. distinct (map fst (neigh i)))"

text \<open>The neighbours that one visit of the outer loop appends after the representative.\<close>

definition group_of :: "real \<Rightarrow> range_result \<Rightarrow> bool list \<Rightarrow> nat \<Rightarrow> (nat \<times> real) list" where
  "group_of threshold neigh a i =
     filter (\<lambda>(j, s). j \<noteq> i \<and> threshold \<le> s \<and> \<not> a ! j) (neigh i)"

text \<open>
  A group with its similarities as the loop emits them: the representative first, at
  similarity one, and one similarity per member.
\<close>

definition group_shape :: "nat \<Rightarrow> nat list \<Rightarrow> real list \<Rightarrow> bool" where
  "group_shape n g s = (\<exists>i ms ss. g = i # ms \<and> s = 1 # ss \<and> length ms = length ss \<and> set g \<subseteq> {..<n})"

text \<open>Row \<open>j\<close> is reported for query \<open>r\<close> at or above the threshold.\<close>

definition qualifies :: "real \<Rightarrow> range_result \<Rightarrow> nat \<Rightarrow> nat \<Rightarrow> bool" where
  "qualifies threshold neigh r j = (\<exists>s. (j, s) \<in> set (neigh r) \<and> threshold \<le> s)"

text \<open>
  Two small embedding sets of unit vectors.  In \<open>crossed\<close>, row 1 is close to rows 0, 2
  and 3 (similarities \<open>4/5\<close>, \<open>12/13\<close>, \<open>12/13\<close>) while rows 0, 2 and 3 are pairwise below
  \<open>3/4\<close> (\<open>48/65\<close>, \<open>48/65\<close>, \<open>119/169\<close>).  In \<open>separated\<close>, rows 0 and 1 are close (\<open>4/5\<close>)
  and row 2 is far from both (\<open>0\<close>, \<open>3/5\<close>).
\<close>

definition crossed :: "real list list" where
  "crossed = [[4/5, 0, 3/5], [1, 0, 0], [12/13, 5/13, 0], [12/13, -5/13, 0]]"

definition separated :: "real list list" where
  "separated = [[1, 0], [4/5, 3/5], [0, 1]]"

section \<open>Auxiliary notions for the allocation\<close>

text \<open>
  The tag of a cluster as step 1 derives it, the size of an item of the inventory, and the
  part of the size that counts under each tag.
\<close>

definition is_night :: "string \<Rightarrow> bool" where
  "is_night cluster_key = startswith (basename cluster_key) ''night_bg_''"

definition item_size :: "string \<times> string list \<Rightarrow> int" where
  "item_size item = int (length (snd item))"

definition night_size :: "string \<times> string list \<Rightarrow> int" where
  "night_size item = (if is_night (fst item) then item_size item else 0)"

definition day_size :: "string \<times> string list \<Rightarrow> int" where
  "day_size item = (if is_night (fst item) then 0 else item_size item)"

text \<open>
  The items of the inventory that the table \<open>capped_assignment\<close> sends to a split, and the
  items it does not mention.
\<close>

definition pinned_to :: "inventory \<Rightarrow> split \<Rightarrow> inventory" where
  "pinned_to cluster_to_images s =
     filter (\<lambda>item. capped_assignment (basename (fst item)) = Some s) cluster_to_images"

definition unpinned :: "inventory \<Rightarrow> inventory" where
  "unpinned cluster_to_images =
     filter (\<lambda>item. capped_assignment (basename (fst item)) = None) cluster_to_images"

definition pool_entry :: "string \<times> string list \<Rightarrow> string \<times> string \<times> int" where
  "pool_entry item = (fst item, basename (fst item), item_size item)"

text \<open>All cluster keys owned by the three splits, and the sum of a counter over the splits.\<close>

definition owned_keys :: "(split \<Rightarrow> string list) \<Rightarrow> string list" where
  "owned_keys alloc = alloc Train @ alloc Val @ alloc Test"

definition over_splits :: "(split \<Rightarrow> int) \<Rightarrow> int" where
  "over_splits f = f Train + f Val + f Test"

text \<open>
  A stand-in for the module \<^verbatim>\<open>random\<close>, and a small inventory: one cluster of the pin and
  cap tables, one day cluster, two night clusters, and one cluster named after neither
  convention.
\<close>

definition toy_random :: "nat random_module" where
  "toy_random = \<lparr>seed_state = (\<lambda>s. nat \<bar>s\<bar>), shuffle = (\<lambda>g xs. (rotate g xs, Suc g))\<rparr>"

definition toy_inventory :: inventory where
  "toy_inventory =
     [(''u/night_bg_003.jpg'', [''a1'', ''a2'', ''a3'']),
      (''u/day_bg_001.jpg'', [''b1'', ''b2'']),
      (''u/night_bg_010.jpg'', [''c1'']),
      (''u/night_bg_011.jpg'', [''d1'', ''d2'', ''d3'']),
      (''u/foo.jpg'', [''e1''])]"

text \<open>An inventory in which two clusters list the same image path.\<close>

definition shared_inventory :: inventory where
  "shared_inventory = [(''u/day_a.jpg'', [''x'']), (''u/day_b.jpg'', [''x''])]"

text \<open>The images that the inventory lists under the given cluster keys, in order.\<close>

definition images_under :: "inventory \<Rightarrow> string list \<Rightarrow> string list" where
  "images_under cluster_to_images ks =
     concat (map (\<lambda>k. case map_of cluster_to_images k of Some xs \<Rightarrow> xs | None \<Rightarrow> []) ks)"

section \<open>Properties of the nearest-centroid computation\<close>

lemma slice_map: "slice s e (map f xs) = map f (slice s e xs)"
  by (simp add: slice_def take_map drop_map)

lemma slice_append_drop: "s \<le> e \<Longrightarrow> slice s e xs @ drop e xs = drop s xs"
proof -
  assume "s \<le> e"
  then have "drop e xs = drop (e - s) (drop s xs)" by simp
  then show ?thesis unfolding slice_def by (metis append_take_drop_id)
qed

lemma map2_nth_matmul:
  "map2 (\<lambda>r i. r ! i) (matmul_T ip chunk uniq) (map argmax_row (matmul_T ip chunk uniq))
     = map (\<lambda>r. map (ip r) uniq ! argmax_row (map (ip r) uniq)) chunk"
  by (induction chunk) (simp_all add: matmul_T_def)

text \<open>
  The loop for a product that computes every row of its result from the corresponding row
  of the chunk alone, by an entry function \<open>ip\<close>.
\<close>

lemma chunk_loop_eq:
  assumes "uniq \<noteq> []" "0 < chunk_size" "length best_idx = length real_rows"
    "length best_sim = length real_rows"
    and "\<And>chunk. matmul chunk uniq = matmul_T ip chunk uniq"
  shows "chunk_loop matmul real_rows uniq chunk_size start best_idx best_sim =
      Inr (take start best_idx @ map Some (drop start (fst (nearest_unchunked ip real_rows uniq))),
           take start best_sim @ map Some (drop start (snd (nearest_unchunked ip real_rows uniq))))"
  using assms
proof (induction matmul real_rows uniq chunk_size start best_idx best_sim rule: chunk_loop.induct)
  case (1 matmul real_rows uniq chunk_size start best_idx best_sim)
  let ?N = "length real_rows"
  let ?I = "fst (nearest_unchunked ip real_rows uniq)"
  let ?S = "snd (nearest_unchunked ip real_rows uniq)"
  have lenI: "length ?I = ?N" and lenS: "length ?S = ?N"
    by (simp_all add: nearest_unchunked_def)
  show ?case
  proof (cases "start < ?N")
    case False
    then show ?thesis using 1(2-) lenI lenS by (subst chunk_loop.simps) simp
  next
    case True
    define e where "e = min (start + chunk_size) ?N"
    define sims where "sims = matmul (slice start e real_rows) uniq"
    have sims_ip: "sims = matmul_T ip (slice start e real_rows) uniq"
      unfolding sims_def by (rule 1(6))
    define idx where "idx = map argmax_row sims"
    define val where "val = map2 (\<lambda>r i. r ! i) sims idx"
    have am: "argmax_axis1 (length uniq) sims = Inr idx"
      using 1(2) by (simp add: argmax_axis1_def idx_def)
    have se: "start \<le> e" "e \<le> ?N" "start < e" using True 1(3) by (auto simp: e_def)
    have idx_eq: "idx = slice start e ?I"
      by (simp add: idx_def sims_ip matmul_T_def nearest_unchunked_def slice_map comp_def)
    have val_eq: "val = slice start e ?S"
      unfolding val_def idx_def sims_ip map2_nth_matmul
      by (simp add: nearest_unchunked_def slice_map)
    have len_idx: "length idx = e - start" using se lenI by (simp add: idx_eq slice_def)
    have len_val: "length val = e - start" using se lenS by (simp add: val_eq slice_def)
    let ?bi = "assign_slice best_idx start e (map Some idx)"
    let ?bs = "assign_slice best_sim start e (map Some val)"
    have lbi: "length ?bi = ?N" using se 1(4) len_idx by (simp add: assign_slice_def)
    have lbs: "length ?bs = ?N" using se 1(5) len_val by (simp add: assign_slice_def)
    have IH: "chunk_loop matmul real_rows uniq chunk_size (start + chunk_size) ?bi ?bs =
      Inr (take (start + chunk_size) ?bi @ map Some (drop (start + chunk_size) ?I),
           take (start + chunk_size) ?bs @ map Some (drop (start + chunk_size) ?S))"
      using "1.IH"[OF _ e_def sims_def am val_def 1(2) 1(3) lbi lbs 1(6)]
        True 1(3) by simp
    have step: "chunk_loop matmul real_rows uniq chunk_size start best_idx best_sim =
        chunk_loop matmul real_rows uniq chunk_size (start + chunk_size) ?bi ?bs"
      using True 1(3) am
      by (subst chunk_loop.simps) (simp add: Let_def e_def[symmetric] sims_def[symmetric] val_def[symmetric])
    have tk: "\<And>(b::'x option list) (v::'x list) (F::'x list). length b = ?N \<Longrightarrow> length F = ?N \<Longrightarrow> v = slice start e F \<Longrightarrow>
       take (start + chunk_size) (assign_slice b start e (map Some v)) @ map Some (drop (start + chunk_size) F)
        = take start b @ map Some (drop start F)"
    proof -
      fix b :: "'x option list" and v F :: "'x list"
      assume lb: "length b = ?N" and lF: "length F = ?N" and v: "v = slice start e F"
      have lv: "length v = e - start" using se lF by (simp add: v slice_def)
      show "take (start + chunk_size) (assign_slice b start e (map Some v)) @ map Some (drop (start + chunk_size) F)
        = take start b @ map Some (drop start F)"
      proof (cases "start + chunk_size \<le> ?N")
        case True
        then have ee: "e = start + chunk_size" by (simp add: e_def)
        have "take (start + chunk_size) (assign_slice b start e (map Some v)) = take start b @ map Some v"
          using lb lv se ee by (simp add: assign_slice_def)
        moreover have "v @ drop e F = drop start F" using slice_append_drop[OF se(1)] v by simp
        ultimately show ?thesis using ee by (metis append.assoc map_append)
      next
        case False
        then have ee: "e = ?N" by (simp add: e_def)
        have "take (start + chunk_size) (assign_slice b start e (map Some v)) = take start b @ map Some v"
          using lb lv se ee False by (simp add: assign_slice_def)
        moreover have "drop (start + chunk_size) F = []" using False lF by simp
        moreover have "v = drop start F" using v ee lF by (simp add: slice_def)
        ultimately show ?thesis by simp
      qed
    qed
    show ?thesis
      unfolding step IH
      using tk[OF 1(4) lenI idx_eq] tk[OF 1(5) lenS val_eq] by simp
  qed
qed

lemma argmax_scan_max:
  assumes "length p = i" "bi < i" "p ! bi = bv" "\<forall>j<i. p ! j \<le> bv" "\<forall>j<bi. p ! j < bv"
  shows "argmax_scan bi bv i xs < length (p @ xs) \<and>
         (\<forall>j<length (p @ xs). (p @ xs) ! j \<le> (p @ xs) ! argmax_scan bi bv i xs) \<and>
         (\<forall>j<argmax_scan bi bv i xs. (p @ xs) ! j < (p @ xs) ! argmax_scan bi bv i xs)"
  using assms
proof (induction xs arbitrary: p bi bv i)
  case Nil
  then show ?case by simp
next
  case (Cons x xs)
  let ?p = "p @ [x]"
  have len: "length ?p = Suc i" using Cons.prems(1) by simp
  show ?case
  proof (cases "bv < x")
    case True
    have a: "?p ! i = x" using Cons.prems(1) by (simp add: nth_append)
    have b: "\<forall>j<Suc i. ?p ! j \<le> x"
      using Cons.prems(1,4) True by (auto simp: nth_append less_Suc_eq)
    have c: "\<forall>j<i. ?p ! j < x"
      using Cons.prems(1,4) True by (auto simp: nth_append)
    from Cons.IH[OF len _ a b c] True show ?thesis by simp
  next
    case False
    have a: "?p ! bi = bv" using Cons.prems(1,2,3) by (simp add: nth_append)
    have b: "\<forall>j<Suc i. ?p ! j \<le> bv"
      using Cons.prems(1,4) False by (auto simp: nth_append less_Suc_eq)
    have c: "\<forall>j<bi. ?p ! j < bv"
      using Cons.prems(1,2,5) by (auto simp: nth_append)
    from Cons.IH[OF len _ a b c] Cons.prems(2) False show ?thesis by simp
  qed
qed

lemma argmax_row_first_max:
  assumes "r \<noteq> []"
  shows "argmax_row r < length r \<and> (\<forall>j<length r. r ! j \<le> r ! argmax_row r) \<and>
         (\<forall>j<argmax_row r. r ! j < r ! argmax_row r)"
proof -
  from assms obtain x xs where r: "r = x # xs" by (cases r) auto
  have "argmax_scan 0 x 1 xs < length ([x] @ xs) \<and>
         (\<forall>j<length ([x] @ xs). ([x] @ xs) ! j \<le> ([x] @ xs) ! argmax_scan 0 x 1 xs) \<and>
         (\<forall>j<argmax_scan 0 x 1 xs. ([x] @ xs) ! j < ([x] @ xs) ! argmax_scan 0 x 1 xs)"
    by (rule argmax_scan_max) simp_all
  then show ?thesis by (simp add: r argmax_row_def)
qed

lemma chunk_loop_error:
  "chunk_loop matmul real_rows uniq chunk_size start best_idx best_sim = Inl e \<Longrightarrow> e = ValueError"
proof (induction matmul real_rows uniq chunk_size start best_idx best_sim rule: chunk_loop.induct)
  case (1 matmul real_rows uniq chunk_size start best_idx best_sim)
  show ?case
  proof (cases "start < length real_rows \<and> 0 < chunk_size")
    case False
    with 1(2) show ?thesis by (subst (asm) chunk_loop.simps) simp
  next
    case True
    show ?thesis
    proof (cases "length uniq = 0")
      case True
      with 1(2) \<open>start < length real_rows \<and> 0 < chunk_size\<close> show ?thesis
        by (subst (asm) chunk_loop.simps) (simp add: argmax_axis1_def Let_def)
    next
      case False
      with 1(2) True show ?thesis
        by (subst (asm) chunk_loop.simps)
           (auto simp: argmax_axis1_def Let_def intro: "1.IH"[OF True refl refl _ refl])
    qed
  qed
qed

text \<open>
  Chunk invariance of the loop itself.  When the product computes every row of its result
  from the corresponding row of the chunk alone, then for arrays of equal width, at least
  one row in \<open>unique\<close> and every chunk size of at least one, \<open>compute_argmax_clusters\<close>
  returns the unchunked row-by-row result, every cell written: for every row of \<open>real\<close> the
  first index of its largest similarity and the similarity there.  So any two such chunk
  sizes give the same result.

  The premise holds for the exact product.  For the float32 product that the code calls it
  is a property of the numerical library: a chunk of one row and a chunk of several rows
  may be multiplied with sums accumulated in different orders, the same row then gets
  similarities that differ in the last bit, and a near-tie between two rows of \<open>unique\<close>
  resolves differently.  Whether the code's result is independent of the chunk size is
  therefore not decided by the code.
\<close>

lemma rowwise_product_chunk_invariance:
  assumes "ncols real_arr = ncols unique" and "1 \<le> nrows unique" and "1 \<le> chunk_size"
    and "\<And>chunk. matmul chunk (rows unique) = matmul_T ip chunk (rows unique)"
  shows "compute_argmax_clusters matmul real_arr unique chunk_size =
           Inr (map Some (fst (nearest_unchunked ip (rows real_arr) (rows unique))),
                map Some (snd (nearest_unchunked ip (rows real_arr) (rows unique))))"
    and "\<forall>i<nrows real_arr.
           fst (nearest_unchunked ip (rows real_arr) (rows unique)) ! i < nrows unique \<and>
           (\<forall>j<nrows unique.
              ip (rows real_arr ! i) (rows unique ! j) \<le>
                snd (nearest_unchunked ip (rows real_arr) (rows unique)) ! i) \<and>
           snd (nearest_unchunked ip (rows real_arr) (rows unique)) ! i =
             ip (rows real_arr ! i)
                (rows unique ! (fst (nearest_unchunked ip (rows real_arr) (rows unique)) ! i)) \<and>
           (\<forall>j<fst (nearest_unchunked ip (rows real_arr) (rows unique)) ! i.
              ip (rows real_arr ! i) (rows unique ! j) <
                snd (nearest_unchunked ip (rows real_arr) (rows unique)) ! i)"
proof -
  have u: "rows unique \<noteq> []" using assms(2) by (auto simp: nrows_def)
  have c: "0 < nat chunk_size" using assms(3) by simp
  show "compute_argmax_clusters matmul real_arr unique chunk_size =
           Inr (map Some (fst (nearest_unchunked ip (rows real_arr) (rows unique))),
                map Some (snd (nearest_unchunked ip (rows real_arr) (rows unique))))"
  proof -
    have "chunk_loop matmul (rows real_arr) (rows unique) (nat chunk_size) 0
            (replicate (nrows real_arr) None) (replicate (nrows real_arr) None) =
          Inr (take 0 (replicate (nrows real_arr) None) @
                 map Some (drop 0 (fst (nearest_unchunked ip (rows real_arr) (rows unique)))),
               take 0 (replicate (nrows real_arr) None) @
                 map Some (drop 0 (snd (nearest_unchunked ip (rows real_arr) (rows unique)))))"
      by (rule chunk_loop_eq) (use u assms(3) in \<open>simp_all add: assms(4) nrows_def\<close>)
    then show ?thesis
      using assms(1,3) by (simp add: compute_argmax_clusters_def)
  qed
  show "\<forall>i<nrows real_arr.
           fst (nearest_unchunked ip (rows real_arr) (rows unique)) ! i < nrows unique \<and>
           (\<forall>j<nrows unique.
              ip (rows real_arr ! i) (rows unique ! j) \<le>
                snd (nearest_unchunked ip (rows real_arr) (rows unique)) ! i) \<and>
           snd (nearest_unchunked ip (rows real_arr) (rows unique)) ! i =
             ip (rows real_arr ! i)
                (rows unique ! (fst (nearest_unchunked ip (rows real_arr) (rows unique)) ! i)) \<and>
           (\<forall>j<fst (nearest_unchunked ip (rows real_arr) (rows unique)) ! i.
              ip (rows real_arr ! i) (rows unique ! j) <
                snd (nearest_unchunked ip (rows real_arr) (rows unique)) ! i)"
  proof (intro allI impI)
    fix i assume i: "i < nrows real_arr"
    let ?r = "map (ip (rows real_arr ! i)) (rows unique)"
    have ne: "?r \<noteq> []" using u by simp
    note m = argmax_row_first_max[OF ne]
    have k: "argmax_row ?r < length (rows unique)" using m by simp
    have below: "\<forall>j<argmax_row ?r. j < length (rows unique)" using k by auto
    show "fst (nearest_unchunked ip (rows real_arr) (rows unique)) ! i < nrows unique \<and>
           (\<forall>j<nrows unique.
              ip (rows real_arr ! i) (rows unique ! j) \<le>
                snd (nearest_unchunked ip (rows real_arr) (rows unique)) ! i) \<and>
           snd (nearest_unchunked ip (rows real_arr) (rows unique)) ! i =
             ip (rows real_arr ! i)
                (rows unique ! (fst (nearest_unchunked ip (rows real_arr) (rows unique)) ! i)) \<and>
           (\<forall>j<fst (nearest_unchunked ip (rows real_arr) (rows unique)) ! i.
              ip (rows real_arr ! i) (rows unique ! j) <
                snd (nearest_unchunked ip (rows real_arr) (rows unique)) ! i)"
      using i m k below by (simp add: nearest_unchunked_def nrows_def)
  qed
qed

lemma rowwise_product_example:
  "compute_argmax_clusters (matmul_T dot) \<lparr>ncols = 2, rows = [[1, 0], [0, 1], [1, 1]]\<rparr>
       \<lparr>ncols = 2, rows = [[1, 0], [0, 1]]\<rparr> 1 =
   Inr ([Some 0, Some 1, Some 0], [Some 1, Some 1, Some 1])"
  "compute_argmax_clusters (matmul_T dot) \<lparr>ncols = 2, rows = [[1, 0], [0, 1], [1, 1]]\<rparr>
       \<lparr>ncols = 2, rows = [[1, 0], [0, 1]]\<rparr> 3 =
   Inr ([Some 0, Some 1, Some 0], [Some 1, Some 1, Some 1])"
  using rowwise_product_chunk_invariance(1) [of "\<lparr>ncols = 2, rows = [[1, 0], [0, 1], [1, 1]]\<rparr>"
      "\<lparr>ncols = 2, rows = [[1, 0], [0, 1]]\<rparr>" 1 "matmul_T dot" dot]
    rowwise_product_chunk_invariance(1) [of "\<lparr>ncols = 2, rows = [[1, 0], [0, 1], [1, 1]]\<rparr>"
      "\<lparr>ncols = 2, rows = [[1, 0], [0, 1]]\<rparr>" 3 "matmul_T dot" dot]
  by (auto simp: nrows_def nearest_unchunked_def argmax_row_def dot_def)

text \<open>
  Claim C8.  When the widths of the two arrays differ, \<open>compute_argmax_clusters\<close> fails with
  the assertion error of the dimension check, whatever the chunk size (also for the chunk
  size zero and for an empty \<open>unique\<close>, at which the loop itself would fail) and whatever
  the matrix product, so the check comes before the chunked computation; when the widths
  are equal it never fails with that error.
\<close>

theorem dimension_mismatch_first:
  "(ncols real_arr \<noteq> ncols unique \<longrightarrow>
      compute_argmax_clusters matmul real_arr unique chunk_size = Inl AssertionError) \<and>
   (ncols real_arr = ncols unique \<longrightarrow>
      compute_argmax_clusters matmul real_arr unique chunk_size \<noteq> Inl AssertionError)"
proof (intro conjI impI)
  assume "ncols real_arr \<noteq> ncols unique"
  then show "compute_argmax_clusters matmul real_arr unique chunk_size = Inl AssertionError"
    by (simp add: compute_argmax_clusters_def)
next
  assume eq: "ncols real_arr = ncols unique"
  show "compute_argmax_clusters matmul real_arr unique chunk_size \<noteq> Inl AssertionError"
  proof
    assume a: "compute_argmax_clusters matmul real_arr unique chunk_size = Inl AssertionError"
    show False
    proof (cases "chunk_size \<le> 0")
      case True
      with a eq show False by (simp add: compute_argmax_clusters_def Let_def split: if_splits)
    next
      case False
      with a eq have "chunk_loop matmul (rows real_arr) (rows unique) (nat chunk_size) 0
          (replicate (nrows real_arr) None) (replicate (nrows real_arr) None) = Inl AssertionError"
        by (simp add: compute_argmax_clusters_def Let_def)
      from chunk_loop_error[OF this] show False by simp
    qed
  qed
qed

theorem dimension_mismatch_first_witness:
  "compute_argmax_clusters (matmul_T dot) \<lparr>ncols = 2, rows = [[1, 0]]\<rparr>
       \<lparr>ncols = 3, rows = [[1, 0, 0]]\<rparr> 0 = Inl AssertionError \<and>
   compute_argmax_clusters (matmul_T dot) \<lparr>ncols = 2, rows = [[1, 0]]\<rparr>
       \<lparr>ncols = 2, rows = [[0, 1]]\<rparr> 1 \<noteq> Inl AssertionError"
  using dimension_mismatch_first [of "\<lparr>ncols = 2, rows = [[1, 0]]\<rparr>"
      "\<lparr>ncols = 3, rows = [[1, 0, 0]]\<rparr>" "matmul_T dot" 0]
    dimension_mismatch_first [of "\<lparr>ncols = 2, rows = [[1, 0]]\<rparr>"
      "\<lparr>ncols = 2, rows = [[0, 1]]\<rparr>" "matmul_T dot" 1]
  by simp

section \<open>Properties of the normalisation\<close>

lemma sum_squares_scaled:
  "sum_list (map (\<lambda>v. v * v) (map (\<lambda>v. v / c) x)) = sum_list (map (\<lambda>v. v * v) x) / (c * c)"
  for c :: real
  by (induction x) (simp_all add: add_divide_distrib)

lemma l2_norm_scaled:
  assumes "0 < c"
  shows "l2_norm (map (\<lambda>v. v / c) x) = l2_norm x / c"
proof -
  have "sqrt (c * c) = c" using assms by simp
  then show ?thesis
    unfolding l2_norm_def sum_squares_scaled by (simp add: real_sqrt_divide)
qed








lemma grid_row_not_unit:
  "l2_norm [10066330 / 16777216, 13421773 / 16777216] \<noteq> 1"
proof
  assume "l2_norm [10066330 / 16777216, 13421773 / 16777216] = 1"
  then have "sqrt ((10066330 / 16777216) * (10066330 / 16777216) +
      (13421773 / 16777216) * (13421773 / 16777216)) = 1"
    by (simp add: l2_norm_def)
  then have "(10066330 / 16777216) * (10066330 / 16777216) +
      (13421773 / 16777216) * (13421773 / 16777216) = (1::real)"
    using real_sqrt_eq_1_iff by blast
  then show False by simp
qed


text \<open>
  Without rounding, the norm of the result is one from the floor upwards and a million
  times the norm of the row below it.
\<close>

lemma exact_ops_normalize_row:
  "l2_norm (l2_normalize_row exact_ops x) =
     (if 1 / 1000000 \<le> l2_norm x then 1 else 1000000 * l2_norm x)"
proof (cases "1 / 1000000 \<le> l2_norm x")
  case True
  then have pos: "0 < l2_norm x" by simp
  from True have "max (l2_norm x) (1 / 1000000) = l2_norm x" by simp
  then have "l2_normalize_row exact_ops x = map (\<lambda>v. v / l2_norm x) x"
    by (simp add: l2_normalize_row_def exact_ops_def)
  then show ?thesis using True l2_norm_scaled[OF pos, of x] pos by simp
next
  case False
  then have "max (l2_norm x) (1 / 1000000) = 1 / 1000000" by simp
  then have "l2_normalize_row exact_ops x = map (\<lambda>v. v / (1 / 1000000)) x"
    by (simp add: l2_normalize_row_def exact_ops_def)
  then show ?thesis using False l2_norm_scaled[of "1 / 1000000" x] by simp
qed

section \<open>Properties of the duplicate grouping\<close>

lemma collect_neighbours_eq:
  "collect_neighbours threshold assigned i nb grp sims =
     (grp @ map fst (filter (\<lambda>(j, s). j \<noteq> i \<and> threshold \<le> s \<and> \<not> assigned ! j) nb),
      sims @ map snd (filter (\<lambda>(j, s). j \<noteq> i \<and> threshold \<le> s \<and> \<not> assigned ! j) nb))"
proof (induction nb arbitrary: grp sims)
  case Nil
  then show ?case by simp
next
  case (Cons p nb)
  obtain j s where p: "p = (j, s)" by (cases p)
  show ?case unfolding p by (simp add: Cons.IH)
qed

lemma length_mark_assigned [simp]: "length (mark_assigned grp a) = length a"
  unfolding mark_assigned_def by (induction grp arbitrary: a) auto

lemma nth_mark_assigned:
  "k < length a \<Longrightarrow> mark_assigned grp a ! k = (a ! k \<or> k \<in> set grp)"
  unfolding mark_assigned_def
proof (induction grp arbitrary: a)
  case Nil
  then show ?case by simp
next
  case (Cons j grp)
  have "fold (\<lambda>j a. a[j := True]) (j # grp) a ! k = (a[j := True] ! k \<or> k \<in> set grp)"
    using Cons.IH[of "a[j := True]"] Cons.prems by simp
  also have "\<dots> = (a ! k \<or> k \<in> set (j # grp))"
  proof (cases "j < length a")
    case True
    then show ?thesis using Cons.prems by (auto simp: nth_list_update)
  next
    case False
    then show ?thesis using Cons.prems by auto
  qed
  finally show ?case .
qed

lemma dedupe_loop_append:
  "dedupe_loop threshold neigh todo a groups group_sims =
     (groups @ fst (dedupe_loop threshold neigh todo a [] []),
      group_sims @ snd (dedupe_loop threshold neigh todo a [] []))"
proof (induction todo arbitrary: a groups group_sims)
  case Nil
  then show ?case by simp
next
  case (Cons i todo)
  show ?case
  proof (cases "a ! i")
    case True
    then show ?thesis using Cons.IH[of a groups group_sims] by simp
  next
    case False
    obtain grp sims where c: "collect_neighbours threshold a i (neigh i) [i] [1] = (grp, sims)"
      by (cases "collect_neighbours threshold a i (neigh i) [i] [1]")
    show ?thesis
      using False c Cons.IH[of "mark_assigned grp a" "groups @ [grp]" "group_sims @ [sims]"]
        Cons.IH[of "mark_assigned grp a" "[grp]" "[sims]"]
      by simp
  qed
qed

lemma dedupe_loop_Cons:
  "dedupe_loop threshold neigh (i # todo) a [] [] =
     (if a ! i then dedupe_loop threshold neigh todo a [] []
      else
        (let kept = group_of threshold neigh a i;
             r = dedupe_loop threshold neigh todo (mark_assigned (i # map fst kept) a) [] []
         in ((i # map fst kept) # fst r, (1 # map snd kept) # snd r)))"
  by (simp add: collect_neighbours_eq group_of_def Let_def
        dedupe_loop_append[of _ _ _ _ "[_]" "[_]"])

lemma group_of_set:
  "set (group_of threshold neigh a i) =
     {(j, s). (j, s) \<in> set (neigh i) \<and> j \<noteq> i \<and> threshold \<le> s \<and> \<not> a ! j}"
  by (auto simp: group_of_def)

lemma group_of_in_range:
  assumes "in_range n neigh" "i < n"
  shows "set (map fst (group_of threshold neigh a i)) \<subseteq> {j. j < n \<and> \<not> a ! j \<and> j \<noteq> i}"
  using assms by (force simp: group_of_set in_range_def)

lemma group_of_distinct:
  assumes "no_repeats n neigh" "i < n"
  shows "distinct (map fst (group_of threshold neigh a i))"
  using assms unfolding group_of_def no_repeats_def by (simp add: distinct_map_filter)

lemma dedupe_loop_shape:
  assumes "set todo \<subseteq> {..<n}" "in_range n neigh"
  shows "list_all2 (\<lambda>g s. \<exists>i ms ss. g = i # ms \<and> s = 1 # ss \<and> length ms = length ss \<and>
            set g \<subseteq> {..<n})
          (fst (dedupe_loop threshold neigh todo a [] []))
          (snd (dedupe_loop threshold neigh todo a [] []))"
  using assms
proof (induction todo arbitrary: a)
  case Nil
  then show ?case by simp
next
  case (Cons i todo)
  have i: "i < n" and todo: "set todo \<subseteq> {..<n}" using Cons.prems(1) by auto
  show ?case
  proof (cases "a ! i")
    case True
    then show ?thesis using Cons.IH[OF todo Cons.prems(2)] by (simp add: dedupe_loop_Cons del: dedupe_loop.simps)
  next
    case False
    have "set (map fst (group_of threshold neigh a i)) \<subseteq> {..<n}"
      using group_of_in_range[OF Cons.prems(2) i] by auto
    then show ?thesis
      using False i Cons.IH[OF todo Cons.prems(2)]
      by (simp add: dedupe_loop_Cons Let_def del: dedupe_loop.simps)
  qed
qed

lemma dedupe_loop_partition:
  assumes "set todo \<subseteq> {..<n}" "length a = n" "in_range n neigh" "no_repeats n neigh"
  shows "distinct (concat (fst (dedupe_loop threshold neigh todo a [] []))) \<and>
         set (concat (fst (dedupe_loop threshold neigh todo a [] []))) \<subseteq> {j. j < n \<and> \<not> a ! j} \<and>
         {i \<in> set todo. \<not> a ! i} \<subseteq> set (concat (fst (dedupe_loop threshold neigh todo a [] [])))"
  using assms
proof (induction todo arbitrary: a)
  case Nil
  then show ?case by simp
next
  case (Cons i todo)
  have i: "i < n" and todo: "set todo \<subseteq> {..<n}" using Cons.prems(1) by auto
  show ?case
  proof (cases "a ! i")
    case True
    then show ?thesis
      using Cons.IH[OF todo Cons.prems(2,3,4)] by (auto simp: dedupe_loop_Cons simp del: dedupe_loop.simps)
  next
    case False
    define grp where "grp = i # map fst (group_of threshold neigh a i)"
    define a' where "a' = mark_assigned grp a"
    define G' where "G' = fst (dedupe_loop threshold neigh todo a' [] [])"
    have G: "fst (dedupe_loop threshold neigh (i # todo) a [] []) = grp # G'"
      using False by (simp add: dedupe_loop_Cons Let_def grp_def a'_def G'_def del: dedupe_loop.simps)
    have la': "length a' = n" using Cons.prems(2) by (simp add: a'_def)
    have a'_nth: "\<And>k. k < n \<Longrightarrow> a' ! k = (a ! k \<or> k \<in> set grp)"
      using Cons.prems(2) by (simp add: a'_def nth_mark_assigned)
    have grp_sub: "set grp \<subseteq> {j. j < n \<and> \<not> a ! j}"
      using group_of_in_range[OF Cons.prems(3) i, of threshold a] i False by (auto simp: grp_def)
    have grp_dist: "distinct grp"
      using group_of_distinct[OF Cons.prems(4) i, of threshold a]
        group_of_in_range[OF Cons.prems(3) i, of threshold a]
      by (auto simp: grp_def)
    have IH: "distinct (concat G')" "set (concat G') \<subseteq> {j. j < n \<and> \<not> a' ! j}"
      "{i \<in> set todo. \<not> a' ! i} \<subseteq> set (concat G')"
      using Cons.IH[OF todo la' Cons.prems(3,4)] by (simp_all add: G'_def)
    have disj: "set grp \<inter> set (concat G') = {}"
      using IH(2) a'_nth by auto
    have sub: "set (concat G') \<subseteq> {j. j < n \<and> \<not> a ! j}"
      using IH(2) a'_nth by auto
    have cov: "{k \<in> set (i # todo). \<not> a ! k} \<subseteq> set grp \<union> set (concat G')"
    proof
      fix k assume k: "k \<in> {k \<in> set (i # todo). \<not> a ! k}"
      show "k \<in> set grp \<union> set (concat G')"
      proof (cases "k \<in> set grp")
        case True
        then show ?thesis by simp
      next
        case False
        then have "k \<noteq> i" by (auto simp: grp_def)
        with k have kt: "k \<in> set todo" "\<not> a ! k" by auto
        then have "k < n" using todo by auto
        then have "\<not> a' ! k" using a'_nth kt False by simp
        then show ?thesis using IH(3) kt by auto
      qed
    qed
    show ?thesis
      unfolding G using grp_dist IH(1) disj grp_sub sub cov by auto
  qed
qed

lemma dedupe_partition:
  assumes "in_range n neigh" "no_repeats n neigh"
  shows "distinct (concat (fst (dedupe_range_search n neigh threshold)))"
    and "set (concat (fst (dedupe_range_search n neigh threshold))) = {0..<n}"
proof -
  have *: "set [0..<n] \<subseteq> {..<n}" "length (replicate n False) = n" by auto
  from dedupe_loop_partition[OF * assms, of threshold]
  show "distinct (concat (fst (dedupe_range_search n neigh threshold)))"
    and "set (concat (fst (dedupe_range_search n neigh threshold))) = {0..<n}"
    by (auto simp: dedupe_range_search_def)
qed

lemma range_search_in_range: "in_range (length vectors) (range_search vectors threshold)"
  by (auto simp: in_range_def range_search_def)

lemma range_search_no_repeats: "no_repeats (length vectors) (range_search vectors threshold)"
proof -
  have "distinct (map fst (map (\<lambda>j. (j, f j)) [0..<n]))" for f :: "nat \<Rightarrow> real" and n
    by (simp add: comp_def)
  then show ?thesis
    unfolding no_repeats_def range_search_def by (simp add: distinct_map_filter)
qed

text \<open>
  With the range search modelled from the specification, the contract holds for every
  embedding set and threshold, and so does the partition.
\<close>

lemma duplicate_groups_partition:
  "distinct (concat (fst (duplicate_groups vectors threshold)))"
  "set (concat (fst (duplicate_groups vectors threshold))) = {0..<length vectors}"
  using dedupe_partition[OF range_search_in_range range_search_no_repeats, of vectors threshold threshold]
  by (simp_all add: duplicate_groups_def)

lemma distinct_concat_unique_index:
  assumes "distinct (concat G)" "k < length G" "k' < length G" "x \<in> set (G ! k)" "x \<in> set (G ! k')"
  shows "k = k'"
  using assms
proof (induction G arbitrary: k k')
  case Nil
  then show ?case by simp
next
  case (Cons g G)
  have disj: "set g \<inter> set (concat G) = {}" and d: "distinct (concat G)"
    using Cons.prems(1) by auto
  have in_concat: "\<And>j. j < length G \<Longrightarrow> x \<in> set (G ! j) \<Longrightarrow> x \<in> set (concat G)"
    by (auto intro: nth_mem)
  show ?case
  proof (cases k)
    case 0
    show ?thesis
    proof (cases k')
      case 0
      with \<open>k = 0\<close> show ?thesis by simp
    next
      case (Suc j')
      with 0 Cons.prems in_concat[of j'] disj show ?thesis by auto
    qed
  next
    case (Suc j)
    show ?thesis
    proof (cases k')
      case 0
      with Suc Cons.prems in_concat[of j] disj show ?thesis by auto
    next
      case (Suc j')
      with \<open>k = Suc j\<close> Cons.prems Cons.IH[OF d, of j j'] show ?thesis by simp
    qed
  qed
qed

text \<open>
  Claim C2.  For every number of rows \<open>n\<close> and every threshold, when the range-search result
  reports only row numbers below \<open>n\<close> and no row twice for one query, the groups that
  \<open>dedupe_range_search\<close> emits partition the index set: listed one after the other they
  contain no index twice, they contain exactly the indices \<open>0, \<dots>, n - 1\<close>, and every such
  index lies in exactly one group.  (The two conditions hold for the range search of
  every embedding set at every threshold: \<open>range_search_in_range\<close>,
  \<open>range_search_no_repeats\<close>.)
\<close>

theorem partition_law:
  assumes "in_range n neigh" and "no_repeats n neigh"
  shows "distinct (concat (fst (dedupe_range_search n neigh threshold))) \<and>
         set (concat (fst (dedupe_range_search n neigh threshold))) = {0..<n} \<and>
         (\<forall>i<n. \<exists>!k. k < length (fst (dedupe_range_search n neigh threshold)) \<and>
                       i \<in> set (fst (dedupe_range_search n neigh threshold) ! k))"
proof -
  let ?G = "fst (dedupe_range_search n neigh threshold)"
  have d: "distinct (concat ?G)" and s: "set (concat ?G) = {0..<n}"
    using dedupe_partition[OF assms] by simp_all
  have "\<exists>!k. k < length ?G \<and> i \<in> set (?G ! k)" if "i < n" for i
  proof -
    from that s have "i \<in> set (concat ?G)" by simp
    then obtain g where "g \<in> set ?G" "i \<in> set g" by auto
    then obtain k where k: "k < length ?G" "i \<in> set (?G ! k)"
      by (auto simp: in_set_conv_nth)
    show ?thesis
    proof (rule ex1I[of _ k])
      show "k < length ?G \<and> i \<in> set (?G ! k)" using k by simp
    next
      fix k' assume "k' < length ?G \<and> i \<in> set (?G ! k')"
      then show "k' = k" using distinct_concat_unique_index[OF d _ k(1) _ k(2)] by simp
    qed
  qed
  with d s show ?thesis by simp
qed

theorem partition_law_witness:
  "in_range 4 (range_search crossed (3/4)) \<and> no_repeats 4 (range_search crossed (3/4)) \<and>
   fst (dedupe_range_search 4 (range_search crossed (3/4)) (3/4)) = [[0, 1], [2], [3]] \<and>
   distinct (concat (fst (dedupe_range_search 4 (range_search crossed (3/4)) (3/4)))) \<and>
   set (concat (fst (dedupe_range_search 4 (range_search crossed (3/4)) (3/4)))) = {0..<4}"
proof -
  have l: "length crossed = 4" by (simp add: crossed_def)
  have h1: "in_range 4 (range_search crossed (3/4))"
    using range_search_in_range[of crossed "3/4"] by (simp add: l)
  have h2: "no_repeats 4 (range_search crossed (3/4))"
    using range_search_no_repeats[of crossed "3/4"] by (simp add: l)
  have e: "fst (dedupe_range_search 4 (range_search crossed (3/4)) (3/4)) = [[0, 1], [2], [3]]"
    by code_simp
  from partition_law[OF h1 h2, of "3/4"] h1 h2 e show ?thesis by simp
qed

lemma group_records_ok:
  assumes "\<forall>j \<in> fst ` set zs. j < length paths"
  shows "\<exists>recs rem. group_records paths gid rep k zs = Inr (recs, rem) \<and>
           length recs = length zs \<and>
           map similarity_to_rep recs = map snd zs \<and>
           map member_path recs = map (\<lambda>z. paths ! fst z) zs \<and>
           (0 < k \<longrightarrow> (\<forall>r \<in> set recs. is_representative r = 0))"
  using assms
proof (induction zs arbitrary: k)
  case Nil
  then show ?case by simp
next
  case (Cons z zs)
  obtain j s where z: "z = (j, s)" by (cases z)
  have j: "j < length paths" using Cons.prems by (simp add: z)
  have "\<forall>j \<in> fst ` set zs. j < length paths" using Cons.prems by simp
  from Cons.IH[OF this, of "Suc k"] obtain recs rem where
    r: "group_records paths gid rep (Suc k) zs = Inr (recs, rem)"
      "length recs = length zs"
      "map similarity_to_rep recs = map snd zs"
      "map member_path recs = map (\<lambda>z. paths ! fst z) zs"
      "\<forall>r \<in> set recs. is_representative r = 0"
    by auto
  show ?case using j r by (simp add: z py_index_def)
qed

text \<open>The rows of one group that starts with its representative at similarity one.\<close>

lemma group_records_first:
  assumes "i < length paths" "set ms \<subseteq> {..<length paths}" "length ms = length ss"
  shows "\<exists>r recs rem. group_records paths gid (paths ! i) 0 (zip (i # ms) (1 # ss)) = Inr (r # recs, rem) \<and>
           is_representative r = 1 \<and> similarity_to_rep r = 1 \<and> member_path r = representative r \<and>
           length recs = length ms \<and> (\<forall>r' \<in> set recs. is_representative r' = 0)"
proof -
  have "\<forall>j \<in> fst ` set (zip ms ss). j < length paths"
    using assms(2) by (auto dest: set_zip_leftD)
  from group_records_ok[OF this, of gid "paths ! i" "Suc 0"] obtain recs rem where
    r: "group_records paths gid (paths ! i) (Suc 0) (zip ms ss) = Inr (recs, rem)"
      "length recs = length (zip ms ss)" "\<forall>r \<in> set recs. is_representative r = 0"
    by auto
  show ?thesis using assms(1,3) r by (simp add: py_index_def)
qed

lemma flags_of_rows:
  assumes "is_representative r = 1" "length recs = m" "\<forall>r' \<in> set recs. is_representative r' = 0"
  shows "map is_representative (r # recs) = 1 # replicate m 0"
proof -
  have "map is_representative recs = map (\<lambda>x. 0) recs"
    using assms(3) by (simp cong: map_cong)
  then show ?thesis using assms(1,2) by (simp add: map_replicate_const)
qed

lemma write_groups_ok:
  assumes "\<forall>(g, s) \<in> set gs. group_shape (length paths) g s"
  shows "\<exists>out. write_groups paths gid gs = Inr out \<and>
           map is_representative (concat (map fst out)) =
             concat (map (\<lambda>(g, s). 1 # replicate (length g - 1) 0) gs) \<and>
           (\<forall>r \<in> set (concat (map fst out)).
              is_representative r = 1 \<longrightarrow> similarity_to_rep r = 1 \<and> member_path r = representative r)"
  using assms
proof (induction gs arbitrary: gid)
  case Nil
  then show ?case by simp
next
  case (Cons p gs)
  obtain g s where p: "p = (g, s)" by (cases p)
  from Cons.prems obtain i ms ss where
    g: "g = i # ms" "s = 1 # ss" "length ms = length ss" "set g \<subseteq> {..<length paths}"
    by (auto simp: p group_shape_def)
  have i: "i < length paths" and ms: "set ms \<subseteq> {..<length paths}" using g by auto
  from group_records_first[OF i ms g(3), of gid] obtain r recs rem where
    r: "group_records paths gid (paths ! i) 0 (zip (i # ms) (1 # ss)) = Inr (r # recs, rem)"
      "is_representative r = 1" "similarity_to_rep r = 1" "member_path r = representative r"
      "length recs = length ms" "\<forall>r' \<in> set recs. is_representative r' = 0"
    by blast
  have "\<forall>(g, s) \<in> set gs. group_shape (length paths) g s" using Cons.prems by simp
  from Cons.IH[OF this, of "Suc gid"] obtain out where
    out: "write_groups paths (Suc gid) gs = Inr out"
      "map is_representative (concat (map fst out)) =
         concat (map (\<lambda>(g, s). 1 # replicate (length g - 1) 0) gs)"
      "\<forall>r \<in> set (concat (map fst out)).
         is_representative r = 1 \<longrightarrow> similarity_to_rep r = 1 \<and> member_path r = representative r"
    by blast
  have w: "write_groups paths gid (p # gs) = Inr ((r # recs, paths ! i, rem) # out)"
    using i r(1) out(1) by (simp add: p g py_index_def)
  have f: "map is_representative (r # recs) = 1 # replicate (length g - 1) 0"
    using flags_of_rows[OF r(2) r(5) r(6)] by (simp add: g)
  show ?case
    unfolding w using f out(2,3) r(2,3,4,6) by (auto simp: p)
qed

lemma dedupe_loop_reps:
  assumes "distinct todo" "set todo \<subseteq> {..<n}" "length a = n"
  shows "(\<forall>g \<in> set (fst (dedupe_loop threshold neigh todo a [] [])).
            g \<noteq> [] \<and> hd g \<in> set todo \<and> \<not> a ! hd g \<and>
            (\<forall>m \<in> set (tl g). qualifies threshold neigh (hd g) m)) \<and>
         sorted_wrt (\<lambda>g g'. \<not> qualifies threshold neigh (hd g) (hd g'))
           (fst (dedupe_loop threshold neigh todo a [] []))"
  using assms
proof (induction todo arbitrary: a)
  case Nil
  then show ?case by simp
next
  case (Cons i todo)
  have i: "i < n" "i \<notin> set todo" and todo: "set todo \<subseteq> {..<n}" "distinct todo"
    using Cons.prems(1,2) by auto
  show ?case
  proof (cases "a ! i")
    case True
    then show ?thesis
      using Cons.IH[OF todo(2,1) Cons.prems(3)]
      by (auto simp: dedupe_loop_Cons simp del: dedupe_loop.simps)
  next
    case False
    define grp where "grp = i # map fst (group_of threshold neigh a i)"
    define a' where "a' = mark_assigned grp a"
    define G' where "G' = fst (dedupe_loop threshold neigh todo a' [] [])"
    have G: "fst (dedupe_loop threshold neigh (i # todo) a [] []) = grp # G'"
      using False by (simp add: dedupe_loop_Cons Let_def grp_def a'_def G'_def del: dedupe_loop.simps)
    have la': "length a' = n" using Cons.prems(3) by (simp add: a'_def)
    have a'_nth: "\<And>k. k < n \<Longrightarrow> a' ! k = (a ! k \<or> k \<in> set grp)"
      using Cons.prems(3) by (simp add: a'_def nth_mark_assigned)
    have IH: "\<forall>g \<in> set G'. g \<noteq> [] \<and> hd g \<in> set todo \<and> \<not> a' ! hd g \<and>
            (\<forall>m \<in> set (tl g). qualifies threshold neigh (hd g) m)"
      "sorted_wrt (\<lambda>g g'. \<not> qualifies threshold neigh (hd g) (hd g')) G'"
      using Cons.IH[OF todo(2,1) la'] by (simp_all add: G'_def)
    have grp_ok: "grp \<noteq> [] \<and> hd grp \<in> set (i # todo) \<and> \<not> a ! hd grp \<and>
            (\<forall>m \<in> set (tl grp). qualifies threshold neigh (hd grp) m)"
      using False by (auto simp: grp_def group_of_set qualifies_def)
    have rest_ok: "g \<noteq> [] \<and> hd g \<in> set (i # todo) \<and> \<not> a ! hd g \<and>
            (\<forall>m \<in> set (tl g). qualifies threshold neigh (hd g) m)" if "g \<in> set G'" for g
    proof -
      from IH(1) that have h: "g \<noteq> []" "hd g \<in> set todo" "\<not> a' ! hd g"
        "\<forall>m \<in> set (tl g). qualifies threshold neigh (hd g) m" by auto
      from h(2) todo have "hd g < n" by auto
      with h(3) a'_nth have "\<not> a ! hd g" by simp
      with h show ?thesis by simp
    qed
    have indep: "\<not> qualifies threshold neigh (hd grp) (hd g)" if "g \<in> set G'" for g
    proof
      assume q: "qualifies threshold neigh (hd grp) (hd g)"
      from IH(1) that have h: "hd g \<in> set todo" "\<not> a' ! hd g" by auto
      from h(1) todo i have lt: "hd g < n" and ne: "hd g \<noteq> i" by auto
      from h(2) a'_nth lt have na: "\<not> a ! hd g" and ng: "hd g \<notin> set grp" by auto
      from q obtain s where "(hd g, s) \<in> set (neigh i)" "threshold \<le> s"
        by (auto simp: qualifies_def grp_def)
      with ne na have "(hd g, s) \<in> set (group_of threshold neigh a i)"
        by (simp add: group_of_set)
      then have "hd g \<in> set grp" by (force simp: grp_def)
      with ng show False by simp
    qed
    show ?thesis unfolding G using grp_ok rest_ok indep IH(2) by auto
  qed
qed

lemma qualifies_range_search:
  "qualifies threshold (range_search vectors threshold) r j \<longleftrightarrow>
     j < length vectors \<and> threshold \<le> dot (vectors ! r) (vectors ! j)"
proof
  assume "qualifies threshold (range_search vectors threshold) r j"
  then show "j < length vectors \<and> threshold \<le> dot (vectors ! r) (vectors ! j)"
    by (auto simp: qualifies_def range_search_def)
next
  assume a: "j < length vectors \<and> threshold \<le> dot (vectors ! r) (vectors ! j)"
  then have "(j, dot (vectors ! r) (vectors ! j)) \<in> set (range_search vectors threshold r)"
    by (auto simp: range_search_def)
  with a show "qualifies threshold (range_search vectors threshold) r j"
    unfolding qualifies_def by blast
qed

lemma dot_commute: "dot x y = dot y x"
proof -
  have "map2 (*) x y = map2 (*) y (x :: real list)"
  proof (induction x arbitrary: y)
    case Nil
    then show ?case by simp
  next
    case (Cons a x)
    then show ?case by (cases y) (simp_all add: mult.commute)
  qed
  then show ?thesis by (simp add: dot_def)
qed

lemma sorted_wrt_symmetric:
  assumes "sorted_wrt P xs" "\<And>x y. P x y \<Longrightarrow> P y x" "x \<in> set xs" "y \<in> set xs" "x \<noteq> y"
  shows "P x y"
proof -
  from assms(1,3,4,5) have "P x y \<or> P y x"
    by (induction xs) auto
  then show ?thesis using assms(2) by blast
qed

lemma distinct_heads:
  assumes "distinct (concat G)" "\<forall>g \<in> set G. g \<noteq> []"
  shows "distinct (map hd G)"
  using assms
proof (induction G)
  case Nil
  then show ?case by simp
next
  case (Cons g G)
  have "hd g \<in> set g" using Cons.prems(2) by simp
  moreover have "hd g' \<in> set (concat G)" if "g' \<in> set G" for g'
  proof -
    from that Cons.prems(2) have "hd g' \<in> set g'" by simp
    with that show ?thesis unfolding set_concat by blast
  qed
  ultimately have "hd g \<notin> hd ` set G" using Cons.prems(1) by auto
  then show ?case using Cons by simp
qed

lemma range_search_strict_in_range:
  "in_range (length vectors) (range_search_strict vectors threshold)"
  by (auto simp: in_range_def range_search_strict_def)

lemma range_search_strict_no_repeats:
  "no_repeats (length vectors) (range_search_strict vectors threshold)"
proof -
  have "distinct (map fst (map (\<lambda>j. (j, f j)) [0..<n]))" for f :: "nat \<Rightarrow> real" and n
    by (simp add: comp_def)
  then show ?thesis
    unfolding no_repeats_def range_search_strict_def by (simp add: distinct_map_filter)
qed

lemma qualifies_range_search_strict:
  "qualifies threshold (range_search_strict vectors threshold) r j \<longleftrightarrow>
     j < length vectors \<and> threshold < dot (vectors ! r) (vectors ! j)"
proof
  assume "qualifies threshold (range_search_strict vectors threshold) r j"
  then show "j < length vectors \<and> threshold < dot (vectors ! r) (vectors ! j)"
    by (auto simp: qualifies_def range_search_strict_def)
next
  assume a: "j < length vectors \<and> threshold < dot (vectors ! r) (vectors ! j)"
  then have "(j, dot (vectors ! r) (vectors ! j)) \<in> set (range_search_strict vectors threshold r)"
    by (auto simp: range_search_strict_def)
  with a show "qualifies threshold (range_search_strict vectors threshold) r j"
    unfolding qualifies_def by force
qed

text \<open>
  Claim C3, as amended.  The number of groups is not monotone in the threshold in general.
  Let \<open>neigh1\<close> be the range-search result at the higher threshold \<open>T1\<close> and \<open>neigh2\<close> the one at
  the lower threshold \<open>T2\<close>, both with row numbers below \<open>n\<close> and no row twice per query.
  Call \<open>j\<close> a neighbour of \<open>i\<close> at a threshold when the search reports \<open>j\<close> for \<open>i\<close> with a
  similarity at or above it, which is what the loop tests.  When every neighbour at \<open>T1\<close> is
  a neighbour at \<open>T2\<close>, and being a neighbour at \<open>T2\<close> is symmetric and transitive among the
  rows, lowering the threshold from \<open>T1\<close> to \<open>T2\<close> does not increase the number of
  groups.  Nothing is assumed about how the search cuts at the threshold or rounds.
\<close>

theorem fewer_groups_when_transitive:
  assumes "in_range n neigh1" and "no_repeats n neigh1"
    and "in_range n neigh2" and "no_repeats n neigh2"
    and "\<forall>i<n. \<forall>j<n. qualifies T1 neigh1 i j \<longrightarrow> qualifies T2 neigh2 i j"
    and "\<forall>i<n. \<forall>j<n. qualifies T2 neigh2 i j \<longrightarrow> qualifies T2 neigh2 j i"
    and "\<forall>a<n. \<forall>b<n. \<forall>c<n.
           a \<noteq> c \<and> qualifies T2 neigh2 a b \<and> qualifies T2 neigh2 b c \<longrightarrow> qualifies T2 neigh2 a c"
  shows "length (fst (dedupe_range_search n neigh2 T2)) \<le> length (fst (dedupe_range_search n neigh1 T1))"
proof -
  define G1 where "G1 = fst (dedupe_range_search n neigh1 T1)"
  define G2 where "G2 = fst (dedupe_range_search n neigh2 T2)"
  have G1: "G1 = fst (dedupe_loop T1 neigh1 [0..<n] (replicate n False) [] [])"
    and G2: "G2 = fst (dedupe_loop T2 neigh2 [0..<n] (replicate n False) [] [])"
    by (simp_all add: G1_def G2_def dedupe_range_search_def)
  have pre: "distinct [0..<n]" "set [0..<n] \<subseteq> {..<n}" "length (replicate n False) = n"
    by auto
  note reps1 = dedupe_loop_reps[OF pre, of T1 neigh1, folded G1]
  note reps2 = dedupe_loop_reps[OF pre, of T2 neigh2, folded G2]
  have part1: "set (concat G1) = {0..<n}"
    using dedupe_partition(2)[OF assms(1,2), of T1] by (simp add: G1_def)
  have part2: "distinct (concat G2)"
    using dedupe_partition(1)[OF assms(3,4), of T2] by (simp add: G2_def)
  have ne2: "\<forall>g \<in> set G2. g \<noteq> []" using reps2 by blast
  have d2: "distinct (map hd G2)" by (rule distinct_heads[OF part2 ne2])
  have lt2: "\<And>r. r \<in> set (map hd G2) \<Longrightarrow> r < n" using reps2 by auto
  have lt1: "\<And>g. g \<in> set G1 \<Longrightarrow> hd g < n" using reps1 by auto
  have sym: "qualifies T2 neigh2 j i" if "qualifies T2 neigh2 i j" "i < n" "j < n" for i j
    using assms(6) that by blast
  have "sorted_wrt (\<lambda>r r'. \<not> qualifies T2 neigh2 r r') (map hd G2)"
    using reps2 by (simp add: sorted_wrt_map)
  then have ordered: "\<not> qualifies T2 neigh2 r r' \<or> \<not> qualifies T2 neigh2 r' r"
    if "r \<in> set (map hd G2)" "r' \<in> set (map hd G2)" "r \<noteq> r'" for r r'
    using that
    sorted_wrt_symmetric[of "\<lambda>r r'. \<not> qualifies T2 neigh2 r r' \<or> \<not> qualifies T2 neigh2 r' r"
        "map hd G2" r r']
      sorted_wrt_mono_rel[of "map hd G2" "\<lambda>r r'. \<not> qualifies T2 neigh2 r r'"
        "\<lambda>r r'. \<not> qualifies T2 neigh2 r r' \<or> \<not> qualifies T2 neigh2 r' r"]
    by blast
  have indep: "\<not> qualifies T2 neigh2 r r'"
    if "r \<in> set (map hd G2)" "r' \<in> set (map hd G2)" "r \<noteq> r'" for r r'
    using ordered[OF that] sym lt2[OF that(1)] lt2[OF that(2)] by blast
  have cover: "\<exists>g \<in> set G1. r \<in> set g" if "r < n" for r
    using part1 that by auto
  have near: "r = hd g \<or> qualifies T2 neigh2 (hd g) r" if "g \<in> set G1" "r \<in> set g" "r < n" for g r
  proof (cases "r = hd g")
    case True
    then show ?thesis by simp
  next
    case False
    from reps1 that(1) have "g \<noteq> []" "\<forall>m \<in> set (tl g). qualifies T1 neigh1 (hd g) m"
      by auto
    moreover from this(1) that(2) False have "r \<in> set (tl g)" by (cases g) auto
    ultimately have "qualifies T1 neigh1 (hd g) r" by simp
    with assms(5) lt1[OF that(1)] that(3) show ?thesis by blast
  qed
  have "\<forall>r \<in> set (map hd G2). \<exists>g. g \<in> set G1 \<and> r \<in> set g"
    using cover lt2 by blast
  then obtain f where f: "\<forall>r \<in> set (map hd G2). f r \<in> set G1 \<and> r \<in> set (f r)"
    by metis
  have inj: "inj_on (\<lambda>r. hd (f r)) (set (map hd G2))"
  proof (rule inj_onI)
    fix r r' assume r: "r \<in> set (map hd G2)" and r': "r' \<in> set (map hd G2)"
      and eq: "hd (f r) = hd (f r')"
    show "r = r'"
    proof (rule ccontr)
      assume ne: "r \<noteq> r'"
      let ?c = "hd (f r)"
      have c: "?c < n" using lt1 f r by blast
      have "f r \<in> set G1" "r \<in> set (f r)" using f r by blast+
      from near[OF this lt2[OF r]] have n1: "r = ?c \<or> qualifies T2 neigh2 ?c r" .
      have "f r' \<in> set G1" "r' \<in> set (f r')" using f r' by blast+
      from near[OF this lt2[OF r']] have n2: "r' = ?c \<or> qualifies T2 neigh2 ?c r'" using eq by simp
      have "qualifies T2 neigh2 r r'"
      proof (cases "r = ?c")
        case True
        with n2 ne show ?thesis by auto
      next
        case False
        with n1 have a: "qualifies T2 neigh2 r ?c" using sym[OF _ c lt2[OF r]] by blast
        show ?thesis
        proof (cases "r' = ?c")
          case True
          with a show ?thesis by simp
        next
          case False
          with n2 have b: "qualifies T2 neigh2 ?c r'" by simp
          from assms(7) lt2[OF r] c lt2[OF r'] ne a b show ?thesis by blast
        qed
      qed
      with indep[OF r r' ne] show False by simp
    qed
  qed
  have "(\<lambda>r. hd (f r)) ` set (map hd G2) \<subseteq> set (map hd G1)"
    using f by auto
  then have "card (set (map hd G2)) \<le> card (set (map hd G1))"
    using inj by (metis List.finite_set card_image card_mono)
  also have "\<dots> \<le> length G1" using card_length[of "map hd G1"] by simp
  finally show ?thesis using distinct_card[OF d2] by (simp add: G1_def G2_def)
qed

text \<open>
  Claim C3, as stated, fails.  On the four unit vectors of \<open>crossed\<close> the grouping at
  threshold \<open>17/20\<close> emits the two groups \<open>[0]\<close>, \<open>[1, 2, 3]\<close>; at the lower threshold \<open>3/4\<close>
  row 0 takes row 1 away first, and rows 2 and 3 are left alone: three groups
  \<open>[0, 1]\<close>, \<open>[2]\<close>, \<open>[3]\<close>.  No similarity of \<open>crossed\<close> is near a threshold, so the two
  cuts give the same groups.
\<close>

theorem threshold_monotonicity_counterexample:
  "(3/4 :: real) < 17/20 \<and>
   length (fst (duplicate_groups crossed (3/4))) = 3 \<and>
   length (fst (duplicate_groups crossed (17/20))) = 2 \<and>
   length (fst (duplicate_groups_strict crossed (3/4))) = 3 \<and>
   length (fst (duplicate_groups_strict crossed (17/20))) = 2"
  by code_simp

lemma crossed_unit_norm: "map l2_norm crossed = [1, 1, 1, 1]"
  by (simp add: crossed_def l2_norm_def)

theorem fewer_groups_when_transitive_witness:
  "length (fst (dedupe_range_search 3 (range_search_strict separated (3/4)) (3/4)))
     \<le> length (fst (dedupe_range_search 3 (range_search_strict separated (9/10)) (9/10))) \<and>
   fst (dedupe_range_search 3 (range_search_strict separated (3/4)) (3/4)) = [[0, 1], [2]] \<and>
   fst (dedupe_range_search 3 (range_search_strict separated (9/10)) (9/10)) = [[0], [1], [2]]"
proof -
  let ?n1 = "range_search_strict separated (9/10)"
  let ?n2 = "range_search_strict separated (3/4)"
  have l: "length separated = 3" by (simp add: separated_def)
  have c1: "in_range 3 ?n1" "no_repeats 3 ?n1"
    using range_search_strict_in_range[of separated "9/10"]
      range_search_strict_no_repeats[of separated "9/10"] by (simp_all add: l)
  have c2: "in_range 3 ?n2" "no_repeats 3 ?n2"
    using range_search_strict_in_range[of separated "3/4"]
      range_search_strict_no_repeats[of separated "3/4"] by (simp_all add: l)
  have mono: "\<forall>i<3. \<forall>j<3. qualifies (9/10) ?n1 i j \<longrightarrow> qualifies (3/4) ?n2 i j"
    by (auto simp: qualifies_range_search_strict)
  have sym: "\<forall>i<3. \<forall>j<3. qualifies (3/4) ?n2 i j \<longrightarrow> qualifies (3/4) ?n2 j i"
    by (simp add: qualifies_range_search_strict l dot_commute)
  have trans: "\<forall>a<3. \<forall>b<3. \<forall>c<3.
      a \<noteq> c \<and> qualifies (3/4) ?n2 a b \<and> qualifies (3/4) ?n2 b c \<longrightarrow> qualifies (3/4) ?n2 a c"
    unfolding qualifies_range_search_strict
    by (auto simp: separated_def dot_def less_Suc_eq numeral_3_eq_3)
  have e: "fst (dedupe_range_search 3 ?n2 (3/4)) = [[0, 1], [2]]"
    "fst (dedupe_range_search 3 ?n1 (9/10)) = [[0], [1], [2]]"
    by code_simp+
  from fewer_groups_when_transitive[OF c1 c2 mono sym trans] e show ?thesis by simp
qed

text \<open>
  Claim C7.  Every group that \<open>dedupe_range_search\<close> emits is non-empty, has one similarity
  per member, and its first similarity, that of the representative, is exactly one.  For
  a path list aligned with the rows, \<open>write_outputs\<close> succeeds, and in its membership table
  the flag \<open>is_representative\<close> is, group after group, one for the first row and zero for
  every other row; a row flagged one has similarity one and is the representative itself.
\<close>

theorem representative_invariant:
  assumes "in_range n neigh" and "length paths = n"
  shows "list_all2 (\<lambda>g s. g \<noteq> [] \<and> length s = length g \<and> hd s = 1)
           (fst (dedupe_range_search n neigh threshold))
           (snd (dedupe_range_search n neigh threshold)) \<and>
         (\<exists>out. write_outputs paths (fst (dedupe_range_search n neigh threshold))
                   (snd (dedupe_range_search n neigh threshold)) = Inr out \<and>
            map is_representative (records out) =
              concat (map (\<lambda>g. 1 # replicate (length g - 1) 0)
                        (fst (dedupe_range_search n neigh threshold))) \<and>
            (\<forall>r \<in> set (records out).
               is_representative r = 1 \<longrightarrow>
                 similarity_to_rep r = 1 \<and> member_path r = representative r))"
proof -
  let ?G = "fst (dedupe_range_search n neigh threshold)"
  let ?S = "snd (dedupe_range_search n neigh threshold)"
  have sub: "set [0..<n] \<subseteq> {..<n}" by auto
  have shape: "list_all2 (group_shape n) ?G ?S"
    using dedupe_loop_shape[OF sub assms(1), of threshold "replicate n False"]
    unfolding dedupe_range_search_def group_shape_def[abs_def] by simp
  have first: "list_all2 (\<lambda>g s. g \<noteq> [] \<and> length s = length g \<and> hd s = 1) ?G ?S"
    by (rule list_all2_mono[OF shape]) (auto simp: group_shape_def)
  have len: "length ?G = length ?S" using shape by (rule list_all2_lengthD)
  have all: "\<forall>(g, s) \<in> set (zip ?G ?S). group_shape (length paths) g s"
    using shape assms(2) by (auto simp: list_all2_iff)
  from write_groups_ok[OF all, of 1] obtain out where
    out: "write_groups paths 1 (zip ?G ?S) = Inr out"
      "map is_representative (concat (map fst out)) =
         concat (map (\<lambda>(g, s). 1 # replicate (length g - 1) 0) (zip ?G ?S))"
      "\<forall>r \<in> set (concat (map fst out)).
         is_representative r = 1 \<longrightarrow> similarity_to_rep r = 1 \<and> member_path r = representative r"
    by blast
  have "map (\<lambda>(g, s). 1 # replicate (length g - 1) (0::nat)) (zip ?G ?S) =
        map (\<lambda>g. 1 # replicate (length g - 1) 0) (map fst (zip ?G ?S))"
    by (simp add: case_prod_unfold comp_def)
  also have "map fst (zip ?G ?S) = ?G" using len by simp
  finally have flags: "map (\<lambda>(g, s). 1 # replicate (length g - 1) (0::nat)) (zip ?G ?S) =
        map (\<lambda>g. 1 # replicate (length g - 1) 0) ?G" .
  show ?thesis
    using first out flags by (simp add: write_outputs_def)
qed

theorem representative_invariant_witness:
  "in_range 4 (range_search crossed (3/4)) \<and> length [''a'', ''b'', ''c'', ''d''] = 4 \<and>
   snd (dedupe_range_search 4 (range_search crossed (3/4)) (3/4)) = [[1, 4/5], [1], [1]] \<and>
   (\<exists>out. write_outputs [''a'', ''b'', ''c'', ''d'']
             (fst (dedupe_range_search 4 (range_search crossed (3/4)) (3/4)))
             (snd (dedupe_range_search 4 (range_search crossed (3/4)) (3/4))) = Inr out \<and>
           map is_representative (records out) = [1, 0, 1, 1])"
proof -
  have l: "length crossed = 4" by (simp add: crossed_def)
  have h1: "in_range 4 (range_search crossed (3/4))"
    using range_search_in_range[of crossed "3/4"] by (simp add: l)
  have h2: "length [''a'', ''b'', ''c'', ''d''] = 4" by simp
  have e: "fst (dedupe_range_search 4 (range_search crossed (3/4)) (3/4)) = [[0, 1], [2], [3]]"
    by code_simp
  have e2: "snd (dedupe_range_search 4 (range_search crossed (3/4)) (3/4)) = [[1, 4/5], [1], [1]]"
    by code_simp
  from representative_invariant[OF h1 h2, of "3/4"] h1 e2 show ?thesis
    by (auto simp: e)
qed

section \<open>Properties of the allocation\<close>

lemma pinned_is_night:
  "capped_assignment b = Some s \<Longrightarrow> startswith b ''night_bg_''"
  by (auto simp: capped_assignment_def startswith_def split: if_splits)

lemma step1_cluster_pinned:
  assumes "capped_assignment (basename (fst item)) = Some s"
  shows "step1_cluster item st =
     st\<lparr>allocation := (allocation st)(s := allocation st s @ [fst item]),
        counts := (counts st)(s := counts st s + item_size item),
        night_counts := (night_counts st)(s := night_counts st s + item_size item)\<rparr>"
  using assms by (simp add: step1_cluster_def Let_def item_size_def)

lemma step1_cluster_unpinned:
  assumes "capped_assignment (basename (fst item)) = None"
  shows "step1_cluster item st =
     (if is_night (fst item)
      then st\<lparr>night_clusters := night_clusters st @ [pool_entry item]\<rparr>
      else st\<lparr>day_clusters := day_clusters st @ [pool_entry item]\<rparr>)"
  using assms by (simp add: step1_cluster_def Let_def item_size_def is_night_def pool_entry_def)

lemma fold_step1_allocation:
  "allocation (fold step1_cluster cti st) s = allocation st s @ map fst (pinned_to cti s)"
proof (induction cti arbitrary: st)
  case Nil
  then show ?case by (simp add: pinned_to_def)
next
  case (Cons item cti)
  show ?case
  proof (cases "capped_assignment (basename (fst item))")
    case None
    then show ?thesis
      by (simp add: Cons.IH step1_cluster_unpinned pinned_to_def)
  next
    case (Some s')
    then show ?thesis
      by (simp add: Cons.IH step1_cluster_pinned pinned_to_def)
  qed
qed

lemma fold_step1_counts:
  "counts (fold step1_cluster cti st) s = counts st s + sum_list (map item_size (pinned_to cti s))"
proof (induction cti arbitrary: st)
  case Nil
  then show ?case by (simp add: pinned_to_def)
next
  case (Cons item cti)
  show ?case
  proof (cases "capped_assignment (basename (fst item))")
    case None
    then show ?thesis
      by (simp add: Cons.IH step1_cluster_unpinned pinned_to_def)
  next
    case (Some s')
    then show ?thesis
      by (simp add: Cons.IH step1_cluster_pinned pinned_to_def)
  qed
qed

lemma fold_step1_night_counts:
  "night_counts (fold step1_cluster cti st) s =
     night_counts st s + sum_list (map item_size (pinned_to cti s))"
proof (induction cti arbitrary: st)
  case Nil
  then show ?case by (simp add: pinned_to_def)
next
  case (Cons item cti)
  show ?case
  proof (cases "capped_assignment (basename (fst item))")
    case None
    then show ?thesis
      by (simp add: Cons.IH step1_cluster_unpinned pinned_to_def)
  next
    case (Some s')
    then show ?thesis
      by (simp add: Cons.IH step1_cluster_pinned pinned_to_def)
  qed
qed

lemma fold_step1_day_counts:
  "day_counts (fold step1_cluster cti st) s = day_counts st s"
proof (induction cti arbitrary: st)
  case Nil
  then show ?case by simp
next
  case (Cons item cti)
  show ?case
  proof (cases "capped_assignment (basename (fst item))")
    case None
    then show ?thesis
      by (simp add: Cons.IH step1_cluster_unpinned)
  next
    case (Some s')
    then show ?thesis
      by (simp add: Cons.IH step1_cluster_pinned)
  qed
qed

lemma fold_step1_night_clusters:
  "night_clusters (fold step1_cluster cti st) =
     night_clusters st @ map pool_entry (filter (\<lambda>item. is_night (fst item)) (unpinned cti))"
proof (induction cti arbitrary: st)
  case Nil
  then show ?case by (simp add: unpinned_def)
next
  case (Cons item cti)
  show ?case
  proof (cases "capped_assignment (basename (fst item))")
    case None
    then show ?thesis
      by (simp add: Cons.IH step1_cluster_unpinned unpinned_def)
  next
    case (Some s')
    then show ?thesis
      by (simp add: Cons.IH step1_cluster_pinned unpinned_def)
  qed
qed

lemma fold_step1_day_clusters:
  "day_clusters (fold step1_cluster cti st) =
     day_clusters st @ map pool_entry (filter (\<lambda>item. \<not> is_night (fst item)) (unpinned cti))"
proof (induction cti arbitrary: st)
  case Nil
  then show ?case by (simp add: unpinned_def)
next
  case (Cons item cti)
  show ?case
  proof (cases "capped_assignment (basename (fst item))")
    case None
    then show ?thesis
      by (simp add: Cons.IH step1_cluster_unpinned unpinned_def)
  next
    case (Some s')
    then show ?thesis
      by (simp add: Cons.IH step1_cluster_pinned unpinned_def)
  qed
qed

lemmas step1_fields =
  fold_step1_allocation [of _ initial_state, folded step1_def]
  fold_step1_counts [of _ initial_state, folded step1_def]
  fold_step1_night_counts [of _ initial_state, folded step1_def]
  fold_step1_day_counts [of _ initial_state, folded step1_def]
  fold_step1_night_clusters [of _ initial_state, folded step1_def]
  fold_step1_day_clusters [of _ initial_state, folded step1_def]

lemma pinned_sizes:
  "sum_list (map night_size (pinned_to cti s)) = sum_list (map item_size (pinned_to cti s))"
  "sum_list (map day_size (pinned_to cti s)) = 0"
proof -
  have n: "\<forall>item \<in> set (pinned_to cti s). is_night (fst item)"
    by (auto simp: pinned_to_def is_night_def dest: pinned_is_night)
  have e1: "map night_size (pinned_to cti s) = map item_size (pinned_to cti s)"
    by (rule map_cong) (use n in \<open>simp_all add: night_size_def\<close>)
  show "sum_list (map night_size (pinned_to cti s)) = sum_list (map item_size (pinned_to cti s))"
    by (rule arg_cong[OF e1])
  have e2: "map day_size (pinned_to cti s) = map (\<lambda>_. 0) (pinned_to cti s)"
    by (rule map_cong) (use n in \<open>simp_all add: day_size_def\<close>)
  have "sum_list (map day_size (pinned_to cti s)) = sum_list (map (\<lambda>_. 0) (pinned_to cti s))"
    by (rule arg_cong[OF e2])
  then show "sum_list (map day_size (pinned_to cti s)) = 0"
    by simp
qed

text \<open>
  Claim C4.  Step 1 is the state from which steps 2 and 3 start.  After it, every split
  owns exactly the clusters that the pin table \<open>capped_assignment\<close> sends to it, in
  inventory order; its total is the sum of their sizes, its day total the sum of their
  sizes under the day tag and its night total the sum of their sizes under the night tag
  (every name of the pin table starts with \<open>night_bg_\<close>, so the day part is zero).  A
  pinned cluster is in the list of its designated split and in neither pool of clusters
  left for steps 2 and 3.
\<close>

theorem pinning_step:
  "allocate_state deficit cluster_to_images =
     fold step3_cluster (sort_largest_first (day_clusters (step1 cluster_to_images)))
       (fold (step2_cluster deficit) (sort_largest_first (night_clusters (step1 cluster_to_images)))
          (step1 cluster_to_images)) \<and>
   (\<forall>s. allocation (step1 cluster_to_images) s = map fst (pinned_to cluster_to_images s) \<and>
        counts (step1 cluster_to_images) s = sum_list (map item_size (pinned_to cluster_to_images s)) \<and>
        day_counts (step1 cluster_to_images) s = sum_list (map day_size (pinned_to cluster_to_images s)) \<and>
        night_counts (step1 cluster_to_images) s =
          sum_list (map night_size (pinned_to cluster_to_images s))) \<and>
   (\<forall>item \<in> set cluster_to_images. \<forall>s. capped_assignment (basename (fst item)) = Some s \<longrightarrow>
        fst item \<in> set (allocation (step1 cluster_to_images) s) \<and>
        fst item \<notin> fst ` set (night_clusters (step1 cluster_to_images)) \<and>
        fst item \<notin> fst ` set (day_clusters (step1 cluster_to_images)))"
proof (intro conjI allI ballI impI)
  show "allocate_state deficit cluster_to_images =
     fold step3_cluster (sort_largest_first (day_clusters (step1 cluster_to_images)))
       (fold (step2_cluster deficit) (sort_largest_first (night_clusters (step1 cluster_to_images)))
          (step1 cluster_to_images))"
    by (simp add: allocate_state_def Let_def)
next
  fix s
  show "allocation (step1 cluster_to_images) s = map fst (pinned_to cluster_to_images s)"
    by (simp add: step1_fields initial_state_def)
  show "counts (step1 cluster_to_images) s = sum_list (map item_size (pinned_to cluster_to_images s))"
    by (simp add: step1_fields initial_state_def)
  show "day_counts (step1 cluster_to_images) s = sum_list (map day_size (pinned_to cluster_to_images s))"
    by (simp add: step1_fields initial_state_def pinned_sizes)
  show "night_counts (step1 cluster_to_images) s =
          sum_list (map night_size (pinned_to cluster_to_images s))"
    by (simp add: step1_fields initial_state_def pinned_sizes)
next
  fix item s
  assume i: "item \<in> set cluster_to_images" and p: "capped_assignment (basename (fst item)) = Some s"
  show "fst item \<in> set (allocation (step1 cluster_to_images) s)"
    using i p by (auto simp: step1_fields initial_state_def pinned_to_def)
  show "fst item \<notin> fst ` set (night_clusters (step1 cluster_to_images))"
    using p by (auto simp: step1_fields initial_state_def unpinned_def pool_entry_def)
  show "fst item \<notin> fst ` set (day_clusters (step1 cluster_to_images))"
    using p by (auto simp: step1_fields initial_state_def unpinned_def pool_entry_def)
qed

theorem pinning_step_witness:
  "allocation (step1 toy_inventory) Train = [''u/night_bg_003.jpg''] \<and>
   counts (step1 toy_inventory) Train = 3 \<and>
   day_counts (step1 toy_inventory) Train = 0 \<and>
   night_counts (step1 toy_inventory) Train = 3 \<and>
   ''u/night_bg_003.jpg'' \<in> set (allocation (step1 toy_inventory) Train) \<and>
   ''u/night_bg_003.jpg'' \<notin> fst ` set (night_clusters (step1 toy_inventory)) \<and>
   ''u/night_bg_003.jpg'' \<notin> fst ` set (day_clusters (step1 toy_inventory))"
proof -
  let ?item = "(''u/night_bg_003.jpg'', [''a1'', ''a2'', ''a3''])"
  have b: "basename ''u/night_bg_003.jpg'' = ''night_bg_003.jpg''"
    by (simp add: basename_def)
  have i: "(''u/night_bg_003.jpg'', [''a1'', ''a2'', ''a3'']) \<in> set toy_inventory"
    by (simp add: toy_inventory_def)
  have p: "capped_assignment (basename (fst ?item)) = Some Train"
    by (simp add: b capped_assignment_def)
  have pin: "pinned_to toy_inventory Train = [?item]"
    by (simp add: pinned_to_def toy_inventory_def basename_def capped_assignment_def)
  have sz: "item_size ?item = 3" "day_size ?item = 0" "night_size ?item = 3"
    by (simp_all add: item_size_def day_size_def night_size_def is_night_def b startswith_def)
  note t = pinning_step[of exact_deficit toy_inventory]
  from t have fields: "allocation (step1 toy_inventory) Train = map fst (pinned_to toy_inventory Train)"
    "counts (step1 toy_inventory) Train = sum_list (map item_size (pinned_to toy_inventory Train))"
    "day_counts (step1 toy_inventory) Train = sum_list (map day_size (pinned_to toy_inventory Train))"
    "night_counts (step1 toy_inventory) Train = sum_list (map night_size (pinned_to toy_inventory Train))"
    by blast+
  from t have "\<forall>item \<in> set toy_inventory. \<forall>s. capped_assignment (basename (fst item)) = Some s \<longrightarrow>
        fst item \<in> set (allocation (step1 toy_inventory) s) \<and>
        fst item \<notin> fst ` set (night_clusters (step1 toy_inventory)) \<and>
        fst item \<notin> fst ` set (day_clusters (step1 toy_inventory))"
    by blast
  from bspec[OF this i] p have placed:
    "fst ?item \<in> set (allocation (step1 toy_inventory) Train) \<and>
     fst ?item \<notin> fst ` set (night_clusters (step1 toy_inventory)) \<and>
     fst ?item \<notin> fst ` set (day_clusters (step1 toy_inventory))"
    by blast
  show ?thesis using fields placed by (simp add: pin sz)
qed

lemma owned_keys_update:
  "mset (owned_keys (alloc(b := alloc b @ [k]))) = mset (owned_keys alloc) + {#k#}"
  by (cases b) (simp_all add: owned_keys_def)

lemma over_splits_update:
  "over_splits (f(b := f b + x)) = over_splits f + x"
  by (cases b) (simp_all add: over_splits_def)

lemma step2_cluster_fields:
  "mset (owned_keys (allocation (step2_cluster deficit c st))) =
     mset (owned_keys (allocation st)) + {#fst c#}"
  "day_counts (step2_cluster deficit c st) = day_counts st"
  by (simp_all add: step2_cluster_def Let_def owned_keys_update)

lemma step3_cluster_fields:
  "mset (owned_keys (allocation (step3_cluster c st))) =
     mset (owned_keys (allocation st)) + {#fst c#}"
  "over_splits (day_counts (step3_cluster c st)) = over_splits (day_counts st) + snd (snd c)"
  by (simp_all add: step3_cluster_def Let_def owned_keys_update over_splits_update)

lemma fold_step2:
  "mset (owned_keys (allocation (fold (step2_cluster deficit) cs st))) =
     mset (owned_keys (allocation st)) + mset (map fst cs)"
  "day_counts (fold (step2_cluster deficit) cs st) = day_counts st"
  by (induction cs arbitrary: st) (simp_all add: step2_cluster_fields)

lemma fold_step3:
  "mset (owned_keys (allocation (fold step3_cluster cs st))) =
     mset (owned_keys (allocation st)) + mset (map fst cs)"
  "over_splits (day_counts (fold step3_cluster cs st)) =
     over_splits (day_counts st) + sum_list (map (\<lambda>c. snd (snd c)) cs)"
  by (induction cs arbitrary: st) (simp_all add: step3_cluster_fields)

lemma mset_sort_largest_first: "mset (sort_largest_first xs) = mset xs"
  by (simp add: sort_largest_first_def)

lemma map_pool_entry: "map fst (map pool_entry xs) = map fst xs"
  "map (\<lambda>c. snd (snd c)) (map pool_entry xs) = map item_size xs"
  by (simp_all add: pool_entry_def comp_def)

lemma mset_keys_split:
  "mset (map fst (pinned_to cti Train)) + mset (map fst (pinned_to cti Val)) +
   mset (map fst (pinned_to cti Test)) + mset (map fst (unpinned cti)) = mset (map fst cti)"
proof (induction cti)
  case Nil
  then show ?case by (simp add: pinned_to_def unpinned_def)
next
  case (Cons item cti)
  show ?case
  proof (cases "capped_assignment (basename (fst item))")
    case None
    with Cons show ?thesis by (simp add: pinned_to_def unpinned_def)
  next
    case (Some s)
    with Cons show ?thesis by (cases s) (simp_all add: pinned_to_def unpinned_def)
  qed
qed

lemma mset_filter_both:
  "mset (map f (filter P xs)) + mset (map f (filter (\<lambda>x. \<not> P x) xs)) = mset (map f xs)"
  by (induction xs) simp_all

lemma allocate_state_owned:
  "mset (owned_keys (allocation (allocate_state deficit cti))) = mset (map fst cti)"
proof -
  let ?st1 = "step1 cti"
  have "mset (owned_keys (allocation (allocate_state deficit cti))) =
      mset (owned_keys (allocation ?st1)) +
      mset (map fst (sort_largest_first (night_clusters ?st1))) +
      mset (map fst (sort_largest_first (day_clusters ?st1)))"
    by (simp add: allocate_state_def Let_def fold_step2 fold_step3)
  also have "mset (map fst (sort_largest_first (night_clusters ?st1))) =
      mset (map fst (filter (\<lambda>item. is_night (fst item)) (unpinned cti)))"
    by (metis mset_map mset_sort_largest_first step1_fields(5) initial_state_def
        alloc_state.select_convs(6) append_Nil map_pool_entry(1))
  also have "mset (map fst (sort_largest_first (day_clusters ?st1))) =
      mset (map fst (filter (\<lambda>item. \<not> is_night (fst item)) (unpinned cti)))"
    by (metis mset_map mset_sort_largest_first step1_fields(6) initial_state_def
        alloc_state.select_convs(5) append_Nil map_pool_entry(1))
  also have "mset (owned_keys (allocation ?st1)) =
      mset (map fst (pinned_to cti Train)) + mset (map fst (pinned_to cti Val)) +
      mset (map fst (pinned_to cti Test))"
    by (simp add: owned_keys_def step1_fields initial_state_def)
  finally show ?thesis
    using mset_keys_split[of cti] mset_filter_both[of fst "\<lambda>item. is_night (fst item)" "unpinned cti"]
    by (simp add: add.assoc)
qed

lemma not_night_unpinned:
  "\<not> is_night k \<Longrightarrow> capped_assignment (basename k) = None"
  using pinned_is_night[of "basename k"] by (cases "capped_assignment (basename k)") (auto simp: is_night_def)

lemma sum_list_sort_largest_first:
  "sum_list (map f (sort_largest_first xs)) = sum_list (map f xs)" for f :: "_ \<Rightarrow> int"
proof -
  have "sum_mset (image_mset f (mset (sort_largest_first xs))) = sum_mset (image_mset f (mset xs))"
    by (simp only: mset_sort_largest_first)
  then show ?thesis by (simp add: sum_mset_sum_list[symmetric])
qed

lemma allocate_state_day_total:
  "over_splits (day_counts (allocate_state deficit cti)) =
     sum_list (map item_size (filter (\<lambda>item. \<not> is_night (fst item)) cti))"
proof -
  have f: "filter (\<lambda>item. \<not> is_night (fst item)) (unpinned cti) =
           filter (\<lambda>item. \<not> is_night (fst item)) cti"
    unfolding unpinned_def filter_filter
    by (rule filter_cong) (auto dest: not_night_unpinned)
  have "over_splits (day_counts (allocate_state deficit cti)) =
        over_splits (day_counts (step1 cti)) +
        sum_list (map (\<lambda>c. snd (snd c)) (sort_largest_first (day_clusters (step1 cti))))"
    by (simp add: allocate_state_def Let_def fold_step3 fold_step2)
  also have "over_splits (day_counts (step1 cti)) = 0"
    by (simp add: over_splits_def step1_fields initial_state_def)
  also have "sum_list (map (\<lambda>c. snd (snd c)) (sort_largest_first (day_clusters (step1 cti)))) =
        sum_list (map (\<lambda>c. snd (snd c)) (day_clusters (step1 cti)))"
    by (rule sum_list_sort_largest_first)
  also have "\<dots> = sum_list (map item_size (filter (\<lambda>item. \<not> is_night (fst item)) (unpinned cti)))"
    by (simp add: step1_fields initial_state_def pool_entry_def comp_def)
  finally show ?thesis by (simp add: f)
qed

lemma allocate_state_keys:
  "set (owned_keys (allocation (allocate_state deficit cti))) = fst ` set cti"
  using allocate_state_owned[of deficit cti, THEN arg_cong, of set_mset] by simp

text \<open>
  Claim C6, as amended.  The allocation raises no error for a cluster name: a cluster
  whose basename does not start with \<open>night_bg_\<close> is a day cluster, whatever its name.
  Every such cluster is owned by some split when the allocation returns, and the day
  totals of the three splits add up to the sizes of all such clusters.
\<close>

theorem untagged_counted_as_day:
  "(\<forall>item \<in> set cluster_to_images. \<not> is_night (fst item) \<longrightarrow>
      (\<exists>s. fst item \<in> set (fst (allocate_exact_splits deficit cluster_to_images) s))) \<and>
   day (snd (allocate_exact_splits deficit cluster_to_images) Train) +
   day (snd (allocate_exact_splits deficit cluster_to_images) Val) +
   day (snd (allocate_exact_splits deficit cluster_to_images) Test) =
     sum_list (map item_size (filter (\<lambda>item. \<not> is_night (fst item)) cluster_to_images))"
proof
  show "\<forall>item \<in> set cluster_to_images. \<not> is_night (fst item) \<longrightarrow>
      (\<exists>s. fst item \<in> set (fst (allocate_exact_splits deficit cluster_to_images) s))"
  proof (intro ballI impI)
    fix item assume "item \<in> set cluster_to_images"
    then have "fst item \<in> set (owned_keys (allocation (allocate_state deficit cluster_to_images)))"
      by (simp add: allocate_state_keys)
    then show "\<exists>s. fst item \<in> set (fst (allocate_exact_splits deficit cluster_to_images) s)"
      by (auto simp: owned_keys_def allocate_exact_splits_def Let_def)
  qed
next
  show "day (snd (allocate_exact_splits deficit cluster_to_images) Train) +
   day (snd (allocate_exact_splits deficit cluster_to_images) Val) +
   day (snd (allocate_exact_splits deficit cluster_to_images) Test) =
     sum_list (map item_size (filter (\<lambda>item. \<not> is_night (fst item)) cluster_to_images))"
    using allocate_state_day_total[of deficit cluster_to_images]
    by (simp add: allocate_exact_splits_def Let_def over_splits_def)
qed

text \<open>
  Claim C6, as stated, fails.  The name \<open>foo.jpg\<close> follows neither convention; the
  allocation of an inventory with this one cluster returns, with the cluster in the train
  split and its one image counted under the day tag.
\<close>

theorem unresolved_tag_counterexample:
  "\<not> startswith (basename ''foo.jpg'') ''night_bg_'' \<and>
   \<not> startswith (basename ''foo.jpg'') ''day_bg_'' \<and>
   fst (allocate_exact_splits exact_deficit [(''foo.jpg'', [''a''])]) Train = [''foo.jpg''] \<and>
   day (snd (allocate_exact_splits exact_deficit [(''foo.jpg'', [''a''])]) Train) = 1 \<and>
   night (snd (allocate_exact_splits exact_deficit [(''foo.jpg'', [''a''])]) Train) = 0"
  by (simp add: allocate_exact_splits_def allocate_state_def step1_def step1_cluster_def
      initial_state_def basename_def startswith_def capped_assignment_def
      sort_largest_first_def step3_cluster_def max_split_def Let_def)

theorem untagged_counted_as_day_witness:
  "(\<exists>s. ''u/foo.jpg'' \<in> set (fst (allocate_exact_splits exact_deficit toy_inventory) s)) \<and>
   day (snd (allocate_exact_splits exact_deficit toy_inventory) Train) +
   day (snd (allocate_exact_splits exact_deficit toy_inventory) Val) +
   day (snd (allocate_exact_splits exact_deficit toy_inventory) Test) = 3"
proof -
  have i: "(''u/foo.jpg'', [''e1'']) \<in> set toy_inventory" by (simp add: toy_inventory_def)
  have n: "\<not> is_night (fst (''u/foo.jpg'', [''e1'']))"
    by (simp add: is_night_def basename_def startswith_def)
  have f: "filter (\<lambda>item. \<not> is_night (fst item)) toy_inventory =
      [(''u/day_bg_001.jpg'', [''b1'', ''b2'']), (''u/foo.jpg'', [''e1''])]"
    by (simp add: toy_inventory_def is_night_def basename_def startswith_def)
  note t = untagged_counted_as_day[of toy_inventory exact_deficit]
  from t have "\<forall>item \<in> set toy_inventory. \<not> is_night (fst item) \<longrightarrow>
      (\<exists>s. fst item \<in> set (fst (allocate_exact_splits exact_deficit toy_inventory) s))"
    by blast
  from bspec[OF this i] n
  have a: "\<exists>s. ''u/foo.jpg'' \<in> set (fst (allocate_exact_splits exact_deficit toy_inventory) s)"
    by simp
  from t have "day (snd (allocate_exact_splits exact_deficit toy_inventory) Train) +
   day (snd (allocate_exact_splits exact_deficit toy_inventory) Val) +
   day (snd (allocate_exact_splits exact_deficit toy_inventory) Test) =
     sum_list (map item_size (filter (\<lambda>item. \<not> is_night (fst item)) toy_inventory))"
    by blast
  then show ?thesis using a by (simp add: f item_size_def)
qed

section \<open>Properties of a whole run\<close>

text \<open>
  The inventory that \<open>build_cluster_to_images\<close> makes of an assignment table is a
  dictionary: no key occurs twice, and every key has at least one image.
\<close>

lemma setdefault_append_keys:
  "map fst (setdefault_append mapping key img) =
     (if key \<in> fst ` set mapping then map fst mapping else map fst mapping @ [key])"
  by (induction mapping key img rule: setdefault_append.induct) auto

lemma setdefault_append_nonempty:
  "\<forall>item \<in> set mapping. snd item \<noteq> [] \<Longrightarrow>
   \<forall>item \<in> set (setdefault_append mapping key img). snd item \<noteq> []"
  by (induction mapping key img rule: setdefault_append.induct) auto

lemma fold_setdefault_append:
  assumes "distinct (map fst mapping)" "\<forall>item \<in> set mapping. snd item \<noteq> []"
  shows "distinct (map fst (fold (\<lambda>(image_path, key) mapping. setdefault_append mapping key image_path)
            assign_rows mapping)) \<and>
         (\<forall>item \<in> set (fold (\<lambda>(image_path, key) mapping. setdefault_append mapping key image_path)
            assign_rows mapping). snd item \<noteq> [])"
  using assms
proof (induction assign_rows arbitrary: mapping)
  case Nil
  then show ?case by simp
next
  case (Cons row assign_rows)
  obtain image_path key where row: "row = (image_path, key)" by (cases row)
  have "distinct (map fst (setdefault_append mapping key image_path))"
    using Cons.prems(1) by (auto simp: setdefault_append_keys)
  moreover have "\<forall>item \<in> set (setdefault_append mapping key image_path). snd item \<noteq> []"
    by (rule setdefault_append_nonempty[OF Cons.prems(2)])
  ultimately show ?case using Cons.IH by (simp add: row)
qed

lemma build_cluster_to_images_dict:
  "distinct (map fst (build_cluster_to_images assign_rows))"
  "\<forall>item \<in> set (build_cluster_to_images assign_rows). snd item \<noteq> []"
  using fold_setdefault_append[of "[]" assign_rows] by (simp_all add: build_cluster_to_images_def)

lemma cap_cluster_state_independent:
  "cap_cluster rnd g images cap_size seed = cap_cluster rnd g' images cap_size seed"
  by (simp add: cap_cluster_def)

lemma apply_caps_state_independent:
  "fst (apply_caps rnd g cti caps seed) = fst (apply_caps rnd g' cti caps seed)"
proof (induction cti arbitrary: g g')
  case Nil
  then show ?case by simp
next
  case (Cons item cti)
  obtain k images where item: "item = (k, images)" by (cases item)
  show ?case
  proof (cases "caps (basename k)")
    case None
    then show ?thesis
      using Cons.IH[of g g'] by (simp add: item split_def Let_def)
  next
    case (Some c)
    obtain xs g1 where c1: "cap_cluster rnd g images c seed = (xs, g1)"
      by (cases "cap_cluster rnd g images c seed")
    then have c2: "cap_cluster rnd g' images c seed = (xs, g1)"
      using cap_cluster_state_independent[of rnd g images c seed g'] by simp
    show ?thesis using Some c1 c2 Cons.IH[of g1 g1] by (simp add: item split_def Let_def)
  qed
qed

text \<open>
  Claim C9.  A run is determined by its arguments (inventory, cap table, seed; the pin
  table and the target ratios are constants of the code) and by the state of the random
  generator when it starts.  That state has no influence: two runs started in any two
  generator states own the same clusters split by split and return the same result of
  \<open>run_splits\<close>, which holds, for every split, the file name, the shuffled image list and the
  text written to the file.  (Every shuffle is preceded by a seeding with the given seed.)
\<close>

theorem allocator_determinism:
  "fst (allocate_exact_splits deficit (fst (apply_caps rnd g1 cluster_to_images caps seed))) =
   fst (allocate_exact_splits deficit (fst (apply_caps rnd g2 cluster_to_images caps seed))) \<and>
   run_splits rnd deficit g1 cluster_to_images caps seed =
   run_splits rnd deficit g2 cluster_to_images caps seed"
  using apply_caps_state_independent[of rnd g1 cluster_to_images caps seed g2]
  by (simp add: run_splits_def)

lemma set_py_prefix: "set (py_prefix xs c) \<subseteq> set xs"
  by (auto simp: py_prefix_def dest: in_set_takeD)

lemma apply_caps_items:
  assumes "\<forall>g xs. mset (fst (shuffle rnd g xs)) = mset xs"
  shows "list_all2 (\<lambda>item item'. fst item' = fst item \<and>
            (caps (basename (fst item)) = None \<longrightarrow> snd item' = snd item) \<and>
            set (snd item') \<subseteq> set (snd item))
          cti (fst (apply_caps rnd g cti caps seed))"
proof (induction cti arbitrary: g)
  case Nil
  then show ?case by simp
next
  case (Cons item cti)
  obtain k images where item: "item = (k, images)" by (cases item)
  show ?case
  proof (cases "caps (basename k)")
    case None
    then show ?thesis
      using Cons.IH[of g] by (simp add: item split_def Let_def)
  next
    case (Some c)
    have "set (fst (shuffle rnd (seed_state rnd seed) images)) = set images"
      using assms by (metis mset_eq_setD)
    then have "set (fst (cap_cluster rnd g images c seed)) \<subseteq> set images"
      using set_py_prefix[of "fst (shuffle rnd (seed_state rnd seed) images)" c]
      by (simp add: cap_cluster_def split_def Let_def)
    then show ?thesis
      using Some Cons.IH[of "snd (cap_cluster rnd g images c seed)"]
      by (simp add: item split_def Let_def)
  qed
qed

lemma capped_lookup:
  assumes "distinct (map fst cti)"
    and "list_all2 (\<lambda>item item'. fst item' = fst item \<and> P item item') cti capped"
  shows "map fst capped = map fst cti"
    and "(k, images) \<in> set cti \<Longrightarrow> \<exists>images'. map_of capped k = Some images' \<and> P (k, images) (k, images')"
    and "map_of capped k = Some images' \<Longrightarrow> \<exists>images. (k, images) \<in> set cti \<and> P (k, images) (k, images')"
proof -
  show keys: "map fst capped = map fst cti"
    using assms(2) by (induction rule: list_all2_induct) auto
  then have d: "distinct (map fst capped)" using assms(1) by simp
  {
    assume "(k, images) \<in> set cti"
    then obtain i where i: "i < length cti" "cti ! i = (k, images)"
      by (auto simp: in_set_conv_nth)
    from assms(2) i have "fst (capped ! i) = k" "P (k, images) (capped ! i)" "i < length capped"
      by (auto simp: list_all2_conv_all_nth)
    then have "capped ! i = (k, snd (capped ! i))" "capped ! i \<in> set capped"
      by (auto simp: prod_eq_iff)
    with \<open>P (k, images) (capped ! i)\<close>
    have "(k, snd (capped ! i)) \<in> set capped" "P (k, images) (k, snd (capped ! i))"
      by simp_all
    then show "\<exists>images'. map_of capped k = Some images' \<and> P (k, images) (k, images')"
      using d by auto
  }
  {
    assume "map_of capped k = Some images'"
    then have "(k, images') \<in> set capped" by (rule map_of_SomeD)
    then obtain i where i: "i < length capped" "capped ! i = (k, images')"
      by (auto simp: in_set_conv_nth)
    from assms(2) i have "fst (cti ! i) = k" "P (cti ! i) (k, images')" "i < length cti"
      by (auto simp: list_all2_conv_all_nth)
    then have "cti ! i = (k, snd (cti ! i))" "cti ! i \<in> set cti"
      by (auto simp: prod_eq_iff)
    with \<open>P (cti ! i) (k, images')\<close>
    have "(k, snd (cti ! i)) \<in> set cti" "P (k, snd (cti ! i)) (k, images')"
      by simp_all
    then show "\<exists>images. (k, images) \<in> set cti \<and> P (k, images) (k, images')" by blast
  }
qed

lemma extend_images_ok:
  assumes "set ks \<subseteq> fst ` set cti"
  shows "extend_images cti ks images = Inr (images @ images_under cti ks)"
  using assms
proof (induction ks arbitrary: images)
  case Nil
  then show ?case by (simp add: images_under_def)
next
  case (Cons k ks)
  then obtain xs where xs: "map_of cti k = Some xs"
    by (cases "map_of cti k") (auto simp: map_of_eq_None_iff)
  have "images_under cti (k # ks) = xs @ images_under cti ks"
    by (simp add: images_under_def xs)
  then show ?case using Cons xs by (simp add: lookup_def)
qed

lemma write_split_files_ok:
  assumes "\<forall>s. set (alloc s) \<subseteq> fst ` set cti"
    and "\<forall>g xs. mset (fst (shuffle rnd g xs)) = mset xs"
  shows "\<exists>files. write_split_files rnd g alloc cti ss = Inr files \<and>
           list_all2 (\<lambda>s f. fst f = s \<and> mset (fst (snd (snd f))) = mset (images_under cti (alloc s)))
             ss files"
proof (induction ss arbitrary: g)
  case Nil
  then show ?case by simp
next
  case (Cons s ss)
  have e: "extend_images cti (alloc s) [] = Inr (images_under cti (alloc s))"
    using extend_images_ok[of "alloc s" cti "[]"] assms(1) by simp
  obtain shuffled g1 where sh: "shuffle rnd g (images_under cti (alloc s)) = (shuffled, g1)"
    by (cases "shuffle rnd g (images_under cti (alloc s))")
  have m: "mset shuffled = mset (images_under cti (alloc s))"
    using assms(2) sh by (metis fst_conv)
  from Cons.IH[of g1] obtain files where
    f: "write_split_files rnd g1 alloc cti ss = Inr files"
      "list_all2 (\<lambda>s f. fst f = s \<and> mset (fst (snd (snd f))) = mset (images_under cti (alloc s))) ss files"
    by blast
  show ?case using e sh m f by simp
qed

lemma images_of_written:
  assumes "list_all2 (\<lambda>s f. fst f = s \<and> mset (fst (snd (snd f))) = mset (images_under cti (alloc s)))
             splits_list files"
  shows "mset (images_of files s) = mset (images_under cti (alloc s))"
proof -
  from assms obtain f1 f2 f3 where files: "files = [f1, f2, f3]"
    by (auto simp: splits_list_def list_all2_Cons1)
  from assms have "fst f1 = Train" "fst f2 = Val" "fst f3 = Test"
    "mset (fst (snd (snd f1))) = mset (images_under cti (alloc Train))"
    "mset (fst (snd (snd f2))) = mset (images_under cti (alloc Val))"
    "mset (fst (snd (snd f3))) = mset (images_under cti (alloc Test))"
    by (simp_all add: files splits_list_def)
  then show ?thesis by (cases s) (simp_all add: images_of_def files)
qed

lemma unique_owner:
  assumes "distinct (owned_keys alloc)" "k \<in> set (owned_keys alloc)"
  shows "\<exists>!s. k \<in> set (alloc s)"
proof -
  from assms(2) obtain s where s: "k \<in> set (alloc s)"
    by (auto simp: owned_keys_def)
  have "s' = s" if "k \<in> set (alloc s')" for s'
    using assms(1) s that by (cases s; cases s') (auto simp: owned_keys_def)
  with s show ?thesis by blast
qed

lemma set_images_under:
  "set (images_under cti ks) = (\<Union>k \<in> set ks. case map_of cti k of Some xs \<Rightarrow> set xs | None \<Rightarrow> {})"
proof (induction ks)
  case Nil
  then show ?case by (simp add: images_under_def)
next
  case (Cons k ks)
  have "images_under cti (k # ks) =
      (case map_of cti k of Some xs \<Rightarrow> xs | None \<Rightarrow> []) @ images_under cti ks"
    by (simp add: images_under_def)
  then show ?case using Cons by (cases "map_of cti k") simp_all
qed

text \<open>
  Claim C1, as amended.  For an inventory with distinct cluster keys (a dictionary) and a
  shuffle that permutes its argument, steps 1 to 3 give every cluster to exactly one split:
  the three ownership lists, put one after the other, contain no key twice and contain
  exactly the keys of the inventory.  The run then writes the three files without error,
  and for every cluster that the cap table does not mention: exactly one split owns it; all
  its images are in the list written for that split; and, provided no other cluster of the
  inventory lists one of its images, none of its images is in the list written for any
  other split.
\<close>

theorem no_cross_partition_leakage:
  assumes "distinct (map fst cluster_to_images)"
    and "\<forall>g xs. mset (fst (shuffle rnd g xs)) = mset xs"
  shows "let capped = fst (apply_caps rnd g cluster_to_images caps seed);
             alloc = fst (allocate_exact_splits deficit capped)
         in distinct (alloc Train @ alloc Val @ alloc Test) \<and>
            set (alloc Train @ alloc Val @ alloc Test) = fst ` set cluster_to_images \<and>
            (\<exists>files. run_splits rnd deficit g cluster_to_images caps seed = Inr files \<and>
               (\<forall>item \<in> set cluster_to_images. caps (basename (fst item)) = None \<longrightarrow>
                  (\<exists>!s. fst item \<in> set (alloc s)) \<and>
                  (\<forall>s. fst item \<in> set (alloc s) \<longrightarrow> set (snd item) \<subseteq> set (images_of files s)) \<and>
                  ((\<forall>other \<in> set cluster_to_images.
                       fst other \<noteq> fst item \<longrightarrow> set (snd other) \<inter> set (snd item) = {}) \<longrightarrow>
                   (\<forall>s. fst item \<notin> set (alloc s) \<longrightarrow>
                        set (snd item) \<inter> set (images_of files s) = {}))))"
proof -
  define capped where "capped = fst (apply_caps rnd g cluster_to_images caps seed)"
  define alloc where "alloc = fst (allocate_exact_splits deficit capped)"
  let ?R = "\<lambda>item item'. (caps (basename (fst item)) = None \<longrightarrow> snd item' = snd item) \<and>
            set (snd item') \<subseteq> set (snd item)"
  have items: "list_all2 (\<lambda>item item'. fst item' = fst item \<and> ?R item item') cluster_to_images capped"
    unfolding capped_def by (rule apply_caps_items[OF assms(2)])
  note look = capped_lookup[OF assms(1) items]
  have alloc_eq: "alloc = allocation (allocate_state deficit capped)"
    by (simp add: alloc_def allocate_exact_splits_def Let_def)
  have own: "mset (owned_keys alloc) = mset (map fst cluster_to_images)"
    using allocate_state_owned[of deficit capped] look(1) by (simp add: alloc_eq)
  have dist: "distinct (owned_keys alloc)"
    using own assms(1) by (metis mset_eq_imp_distinct_iff)
  have keys: "set (owned_keys alloc) = fst ` set cluster_to_images"
    using mset_eq_setD[OF own] by simp
  have keys': "fst ` set capped = fst ` set cluster_to_images"
    using look(1) by (metis set_map)
  have sub: "\<forall>s. set (alloc s) \<subseteq> fst ` set capped"
  proof
    fix s show "set (alloc s) \<subseteq> fst ` set capped"
      using keys keys' by (cases s) (auto simp: owned_keys_def)
  qed
  from write_split_files_ok[OF sub assms(2), of "seed_state rnd seed" splits_list]
  obtain files where
    files: "write_split_files rnd (seed_state rnd seed) alloc capped splits_list = Inr files"
      "list_all2 (\<lambda>s f. fst f = s \<and> mset (fst (snd (snd f))) = mset (images_under capped (alloc s)))
         splits_list files"
    by blast
  have run: "run_splits rnd deficit g cluster_to_images caps seed = Inr files"
    using files(1) by (simp add: run_splits_def write_splits_def Let_def capped_def alloc_def)
  have written: "set (images_of files s) = set (images_under capped (alloc s))" for s
    using images_of_written[OF files(2), of s] by (rule mset_eq_setD)
  have per_item: "(\<exists>!s. fst item \<in> set (alloc s)) \<and>
      (\<forall>s. fst item \<in> set (alloc s) \<longrightarrow> set (snd item) \<subseteq> set (images_of files s)) \<and>
      ((\<forall>other \<in> set cluster_to_images.
           fst other \<noteq> fst item \<longrightarrow> set (snd other) \<inter> set (snd item) = {}) \<longrightarrow>
       (\<forall>s. fst item \<notin> set (alloc s) \<longrightarrow> set (snd item) \<inter> set (images_of files s) = {}))"
    if item: "item \<in> set cluster_to_images" and uncapped: "caps (basename (fst item)) = None"
    for item
  proof (intro conjI allI impI)
    have "fst item \<in> set (owned_keys alloc)" using keys item by simp
    then show "\<exists>!s. fst item \<in> set (alloc s)" by (rule unique_owner[OF dist])
  next
    fix s assume s: "fst item \<in> set (alloc s)"
    from look(2)[of "fst item" "snd item"] item uncapped
    have "map_of capped (fst item) = Some (snd item)" by auto
    with s show "set (snd item) \<subseteq> set (images_of files s)"
      unfolding written set_images_under by force
  next
    fix s
    assume alone: "\<forall>other \<in> set cluster_to_images.
           fst other \<noteq> fst item \<longrightarrow> set (snd other) \<inter> set (snd item) = {}"
      and s: "fst item \<notin> set (alloc s)"
    show "set (snd item) \<inter> set (images_of files s) = {}"
    proof (rule ccontr)
      assume "set (snd item) \<inter> set (images_of files s) \<noteq> {}"
      then obtain x where x: "x \<in> set (snd item)" "x \<in> set (images_under capped (alloc s))"
        unfolding written by blast
      from x(2) obtain k' xs' where k': "k' \<in> set (alloc s)" "map_of capped k' = Some xs'" "x \<in> set xs'"
        unfolding set_images_under by (auto split: option.splits)
      from look(3)[OF k'(2)] obtain images0 where
        o: "(k', images0) \<in> set cluster_to_images" "set xs' \<subseteq> set images0"
        by auto
      from k'(1) s have "k' \<noteq> fst item" by auto
      with alone o(1) have "set images0 \<inter> set (snd item) = {}" by force
      with x(1) k'(3) o(2) show False by auto
    qed
  qed
  have "distinct (alloc Train @ alloc Val @ alloc Test)"
    "set (alloc Train @ alloc Val @ alloc Test) = fst ` set cluster_to_images"
    using dist keys by (simp_all add: owned_keys_def)
  with run per_item show ?thesis
    unfolding Let_def capped_def[symmetric] alloc_def[symmetric] by blast
qed


lemma mset_rotate_eq: "mset (rotate n xs) = mset xs"
proof -
  have "mset (drop k xs) + mset (take k xs) = mset xs" for k
    by (metis add.commute append_take_drop_id mset_append)
  then show ?thesis by (simp add: rotate_drop_take)
qed

theorem no_cross_partition_leakage_witness:
  "distinct (map fst toy_inventory) \<and>
   (\<forall>g xs. mset (fst (shuffle toy_random g xs)) = mset xs) \<and>
   (\<exists>files. run_splits toy_random exact_deficit 7 toy_inventory [''night_bg_003.jpg'' \<mapsto> 2] 42 = Inr files \<and>
      set [''b1'', ''b2''] \<subseteq> set (images_of files Train) \<and>
      set [''b1'', ''b2''] \<inter> set (images_of files Val) = {} \<and>
      set [''b1'', ''b2''] \<inter> set (images_of files Test) = {})"
proof -
  let ?caps = "[''night_bg_003.jpg'' \<mapsto> (2::int)]"
  let ?item = "(''u/day_bg_001.jpg'', [''b1'', ''b2''])"
  let ?alloc = "fst (allocate_exact_splits exact_deficit (fst (apply_caps toy_random 7 toy_inventory ?caps 42)))"
  have h1: "distinct (map fst toy_inventory)"
    by (simp add: toy_inventory_def)
  have h2: "\<forall>g xs. mset (fst (shuffle toy_random g xs)) = mset xs"
    by (simp add: toy_random_def mset_rotate_eq)
  have i: "?item \<in> set toy_inventory" by (simp add: toy_inventory_def)
  have u: "?caps (basename (fst ?item)) = None" by (simp add: basename_def)
  have alone: "\<forall>other \<in> set toy_inventory.
      fst other \<noteq> fst ?item \<longrightarrow> set (snd other) \<inter> set (snd ?item) = {}"
    by (simp add: toy_inventory_def)
  have a: "?alloc Train = [''u/night_bg_003.jpg'', ''u/night_bg_010.jpg'', ''u/day_bg_001.jpg'']"
    "?alloc Val = [''u/night_bg_011.jpg'', ''u/foo.jpg'']" "?alloc Test = []"
    by code_simp+
  from no_cross_partition_leakage[OF h1 h2, of 7 ?caps 42 exact_deficit, unfolded Let_def]
  obtain files where run: "run_splits toy_random exact_deficit 7 toy_inventory ?caps 42 = Inr files"
    and every: "\<forall>item \<in> set toy_inventory. ?caps (basename (fst item)) = None \<longrightarrow>
        (\<exists>!s. fst item \<in> set (?alloc s)) \<and>
        (\<forall>s. fst item \<in> set (?alloc s) \<longrightarrow> set (snd item) \<subseteq> set (images_of files s)) \<and>
        ((\<forall>other \<in> set toy_inventory.
             fst other \<noteq> fst item \<longrightarrow> set (snd other) \<inter> set (snd item) = {}) \<longrightarrow>
         (\<forall>s. fst item \<notin> set (?alloc s) \<longrightarrow> set (snd item) \<inter> set (images_of files s) = {}))"
    by blast
  from bspec[OF every i] u alone
  have inside: "\<forall>s. fst ?item \<in> set (?alloc s) \<longrightarrow> set (snd ?item) \<subseteq> set (images_of files s)"
    and outside: "\<forall>s. fst ?item \<notin> set (?alloc s) \<longrightarrow> set (snd ?item) \<inter> set (images_of files s) = {}"
    by blast+
  from inside[THEN spec, of Train] outside[THEN spec, of Val] outside[THEN spec, of Test]
  have "set [''b1'', ''b2''] \<subseteq> set (images_of files Train)"
    "set [''b1'', ''b2''] \<inter> set (images_of files Val) = {}"
    "set [''b1'', ''b2''] \<inter> set (images_of files Test) = {}"
    by (simp_all add: a)
  with h1 h2 run show ?thesis by blast
qed

text \<open>
  Claim C1, as stated, fails in its last part.  The ownership lists are disjoint, but the
  written lists hold image paths, and nothing in the code keeps two clusters from listing
  the same path.  In \<open>shared_inventory\<close> neither cluster is in the cap table, step 3 gives
  the first to train and the second to val, and the one image \<open>x\<close> of both is written to
  the train list and to the val list.
\<close>

theorem cross_partition_leakage_counterexample:
  "distinct (map fst shared_inventory) \<and>
   map (\<lambda>item. caps_table (basename (fst item))) shared_inventory = [None, None] \<and>
   fst (apply_caps toy_random 0 shared_inventory caps_table 42) = shared_inventory \<and>
   fst (allocate_exact_splits exact_deficit shared_inventory) Train = [''u/day_a.jpg''] \<and>
   fst (allocate_exact_splits exact_deficit shared_inventory) Val = [''u/day_b.jpg''] \<and>
   fst (allocate_exact_splits exact_deficit shared_inventory) Test = [] \<and>
   run_splits toy_random exact_deficit 0 shared_inventory caps_table 42 =
     Inr [(Train, ''train_capped.txt'', [''x''], ''x'' @ [CHR 0x0A]),
          (Val, ''val_capped.txt'', [''x''], ''x'' @ [CHR 0x0A]),
          (Test, ''test_capped.txt'', [], [])]"
  by code_simp

end
